theory Spec2Isabelle
  imports Complex_Main "HOL-Library.Sublist" "HOL-Library.Product_Lexorder"
begin

section \<open>Data model\<close>

text \<open>
  A shallow embedding of the ontology core of \<^verbatim>\<open>soli/graph.py\<close> and
  \<^verbatim>\<open>soli/models.py\<close>. A Python \<^verbatim>\<open>str\<close> is a \<^typ>\<open>string\<close> (the list of its
  characters); \<^verbatim>\<open>Optional[str]\<close> is \<^typ>\<open>string option\<close>. The text of an element may be
  \<^verbatim>\<open>None\<close>, so every attribute that is assigned from \<^verbatim>\<open>child.text\<close> holds a
  \<^typ>\<open>string option\<close>, also inside the list-valued attributes.
\<close>

datatype error = IndexError | RuntimeError | RecursionError | AttributeError | ValueError
  | ExtractError

text \<open>
  \<^verbatim>\<open>OWLClass\<close> of \<^verbatim>\<open>models.py\<close>. The fields \<^verbatim>\<open>definition\<close>, \<^verbatim>\<open>notes\<close>, \<^verbatim>\<open>identifier\<close> and
  \<^verbatim>\<open>translations\<close> carry a suffix, their names being reserved words here.
\<close>

record OWLClass =
  iri :: string
  label :: "string option"
  sub_class_of :: "string list"
  parent_class_of :: "string list"
  is_defined_by :: "string option"
  see_also :: "string option list"
  comment :: "string option"
  deprecated :: bool
  preferred_label :: "string option"
  alternative_labels :: "string option list"
  translations_f :: "string \<rightharpoonup> string option"
  hidden_label :: "string option"
  definition_f :: "string option"
  examples :: "string option list"
  notes_f :: "string option list"
  history_note :: "string option"
  editorial_note :: "string option"
  in_scheme :: "string option"
  identifier_f :: "string option"
  description :: "string option"
  source :: "string option"
  country :: "string option"

text \<open>\<^verbatim>\<open>OWLClass(iri=iri)\<close>: every other field at its default.\<close>

definition OWLClass_new :: "string \<Rightarrow> OWLClass" where
  "OWLClass_new i =
     \<lparr> iri = i, label = None, sub_class_of = [], parent_class_of = [],
       is_defined_by = None, see_also = [], comment = None, deprecated = False,
       preferred_label = None, alternative_labels = [], translations_f = Map.empty,
       hidden_label = None, definition_f = None, examples = [], notes_f = [],
       history_note = None, editorial_note = None, in_scheme = None, identifier_f = None,
       description = None, source = None, country = None \<rparr>"

definition is_valid :: "OWLClass \<Rightarrow> bool" where
  "is_valid c = (label c \<noteq> None)"

text \<open>
  An element of the parsed document (\<^verbatim>\<open>lxml.etree._Element\<close>): its qualified tag
  \<^verbatim>\<open>{namespace}name\<close>, its attributes, its text (\<^verbatim>\<open>.text\<close>, here \<open>text_f\<close>) and
  its children.
\<close>

datatype node = Node (tag: string) (attrib: "(string \<times> string) list")
  (text_f: "string option") (getchildren: "node list")

type_synonym triple = "string \<times> string \<times> string option"

text \<open>
  The instance state of class \<^verbatim>\<open>SOLI\<close>. \<^verbatim>\<open>label_to_index\<close> and
  \<^verbatim>\<open>alt_label_to_index\<close> are dictionaries whose key order (insertion order) is read by
  the searches, so they are association lists; the other dictionaries are maps. The
  fields \<^verbatim>\<open>_cached_triples\<close>, \<^verbatim>\<open>_label_trie\<close> and \<^verbatim>\<open>_prefix_cache\<close> lose their
  leading underscore. \<^verbatim>\<open>warnings\<close> collects the arguments of \<^verbatim>\<open>LOGGER.warning\<close>.
  A \<^verbatim>\<open>marisa_trie.Trie\<close> is modelled by the list of its keys. A list built by
  \<^verbatim>\<open>[self[index] for index in ...]\<close> holds what \<^verbatim>\<open>self[index]\<close> returns, an entity
  or \<^verbatim>\<open>None\<close>.
\<close>

record SOLI =
  title :: "string option"
  soli_description :: "string option"
  classes :: "OWLClass list"
  iri_to_index :: "string \<rightharpoonup> nat"
  label_to_index :: "(string \<times> nat list) list"
  alt_label_to_index :: "(string \<times> nat list) list"
  class_edges :: "string \<rightharpoonup> string list"
  cached_triples :: "triple list"
  label_trie :: "string list option"
  prefix_cache :: "string \<rightharpoonup> OWLClass option list"
  triples :: "triple list"
  warnings :: "string list"

definition OWL_THING :: string where
  "OWL_THING = ''http://www.w3.org/2002/07/owl#Thing''"

definition MIN_PREFIX_LENGTH :: nat where
  "MIN_PREFIX_LENGTH = 3"

definition DEFAULT_MAX_DEPTH :: int where
  "DEFAULT_MAX_DEPTH = 16"

text \<open>The fields as \<^verbatim>\<open>SOLI.__init__\<close> sets them before it loads and parses.\<close>

definition SOLI_init :: SOLI where
  "SOLI_init =
     \<lparr> title = None, soli_description = None, classes = [], iri_to_index = Map.empty,
       label_to_index = [], alt_label_to_index = [], class_edges = Map.empty,
       cached_triples = [], label_trie = None, prefix_cache = Map.empty, triples = [],
       warnings = [] \<rparr>"

section \<open>IRI normalisation and lookup\<close>

text \<open>\<^verbatim>\<open>str.startswith\<close> is \<^const>\<open>prefix\<close>; \<^verbatim>\<open>iri[len(p):]\<close> is \<^const>\<open>drop\<close>.\<close>

definition SOLI_BASE :: string where
  "SOLI_BASE = ''https://soli.openlegalstandard.org/''"

definition LMSS_BASE :: string where
  "LMSS_BASE = ''http://lmss.sali.org/''"

definition normalize_iri :: "string \<Rightarrow> string" where
  "normalize_iri i =
     (if prefix SOLI_BASE i then i
      else
        let i1 = (if prefix ''soli:'' i then drop (length ''soli:'') i else i);
            i2 = (if prefix ''lmss:'' i1 then drop (length ''lmss:'') i1 else i1);
            i3 = (if prefix LMSS_BASE i2 then drop (length LMSS_BASE) i2 else i2)
        in if count_list i3 CHR ''/'' = 0 then SOLI_BASE @ i3 else i3)"

text \<open>\<^verbatim>\<open>SOLI.__contains__\<close>.\<close>

definition contains :: "SOLI \<Rightarrow> string \<Rightarrow> bool" where
  "contains s item = (iri_to_index s (normalize_iri item) \<noteq> None)"

text \<open>
  \<^verbatim>\<open>xs[i]\<close> on a Python list with an \<^verbatim>\<open>int\<close> index: a negative index counts from
  the end, and an index outside \<^verbatim>\<open>-len(xs) <= i < len(xs)\<close> raises \<^verbatim>\<open>IndexError\<close>.
\<close>

definition py_index :: "'a list \<Rightarrow> int \<Rightarrow> error + 'a" where
  "py_index xs i =
     (if 0 \<le> i \<and> i < int (length xs) then Inr (xs ! nat i)
      else if i < 0 \<and> - int (length xs) \<le> i then Inr (xs ! nat (int (length xs) + i))
      else Inl IndexError)"

text \<open>
  \<^verbatim>\<open>SOLI.__getitem__\<close>, one function for each of the two accepted argument types. With
  an \<^verbatim>\<open>int\<close> the \<^verbatim>\<open>IndexError\<close> is caught and \<^verbatim>\<open>None\<close> returned; with a
  \<^verbatim>\<open>str\<close> the read \<^verbatim>\<open>self.classes[index]\<close> is not guarded.
\<close>

definition getitem_int :: "SOLI \<Rightarrow> int \<Rightarrow> OWLClass option" where
  "getitem_int s item =
     (case py_index (classes s) item of Inr c \<Rightarrow> Some c | Inl e \<Rightarrow> None)"

definition getitem_str :: "SOLI \<Rightarrow> string \<Rightarrow> error + OWLClass option" where
  "getitem_str s item =
     (case iri_to_index s (normalize_iri item) of
        Some index \<Rightarrow>
          (case py_index (classes s) (int index) of
             Inr c \<Rightarrow> Inr (Some c)
           | Inl e \<Rightarrow> Inl e)
      | None \<Rightarrow> Inr None)"

section \<open>The parser\<close>

text \<open>\<^verbatim>\<open>NSMAP\<close> of \<^verbatim>\<open>models.py\<close>, at its string keys.\<close>

definition NSMAP :: "string \<rightharpoonup> string" where
  "NSMAP = map_of
     [(''dc'', ''http://purl.org/dc/elements/1.1/''),
      (''v1'', ''http://www.loc.gov/mads/rdf/v1#''),
      (''owl'', ''http://www.w3.org/2002/07/owl#''),
      (''rdf'', ''http://www.w3.org/1999/02/22-rdf-syntax-ns#''),
      (''xsd'', ''http://www.w3.org/2001/XMLSchema#''),
      (''soli'', ''https://soli.openlegalstandard.org/''),
      (''rdfs'', ''http://www.w3.org/2000/01/rdf-schema#''),
      (''skos'', ''http://www.w3.org/2004/02/skos/core#''),
      (''xml'', ''http://www.w3.org/XML/1998/namespace'')]"

definition get_ns_tag :: "string \<Rightarrow> string \<Rightarrow> string" where
  "get_ns_tag ns t =
     (case NSMAP ns of Some uri \<Rightarrow> ''{'' @ uri @ ''}'' @ t | None \<Rightarrow> t)"

text \<open>\<^verbatim>\<open>node.attrib.get(key, None)\<close>.\<close>

definition attrib_get :: "node \<Rightarrow> string \<Rightarrow> string option" where
  "attrib_get n k = map_of (attrib n) k"

text \<open>The truth value Python gives an \<^verbatim>\<open>Optional[str]\<close>: neither \<^verbatim>\<open>None\<close> nor empty.\<close>

fun truthy :: "string option \<Rightarrow> bool" where
  "truthy None = False"
| "truthy (Some v) = (v \<noteq> [])"

text \<open>
  The body of the loop over the children of a Class node in \<^verbatim>\<open>parse_owl_class\<close>.
  Its state is the entity under construction and the triple log \<^verbatim>\<open>self.triples\<close>.
  The last branch (an unknown tag) only writes a debug message.
\<close>

definition parse_child :: "OWLClass \<times> triple list \<Rightarrow> node \<Rightarrow> OWLClass \<times> triple list" where
  "parse_child st child =
     (let owl_class = fst st; ts = snd st in
      if tag child = get_ns_tag ''rdfs'' ''label'' then
        (owl_class\<lparr>label := text_f child\<rparr>,
         ts @ [(iri owl_class, ''rdfs:label'', text_f child)])
      else if tag child = get_ns_tag ''rdfs'' ''subClassOf'' then
        (case attrib_get child (get_ns_tag ''rdf'' ''resource'') of
           Some parent_class \<Rightarrow>
             if parent_class \<noteq> [] then
               (owl_class\<lparr>sub_class_of := sub_class_of owl_class @ [parent_class]\<rparr>,
                ts @ [(iri owl_class, ''rdfs:subClassOf'', Some parent_class)])
             else (owl_class, ts)
         | None \<Rightarrow> (owl_class, ts))
      else if tag child = get_ns_tag ''rdfs'' ''isDefinedBy'' then
        (case attrib_get child (get_ns_tag ''rdf'' ''resource'') of
           Some defined_by \<Rightarrow>
             if defined_by \<noteq> [] then
               (owl_class\<lparr>is_defined_by := Some defined_by\<rparr>,
                ts @ [(iri owl_class, ''rdfs:isDefinedBy'', Some defined_by)])
             else (owl_class, ts)
         | None \<Rightarrow> (owl_class, ts))
      else if tag child = get_ns_tag ''rdfs'' ''seeAlso'' then
        (case attrib_get child (get_ns_tag ''rdf'' ''resource'') of
           Some see_also_v \<Rightarrow>
             if see_also_v \<noteq> [] then
               (owl_class\<lparr>see_also := see_also owl_class @ [text_f child]\<rparr>,
                ts @ [(iri owl_class, ''rdfs:seeAlso'', Some see_also_v)])
             else (owl_class, ts)
         | None \<Rightarrow> (owl_class, ts))
      else if tag child = get_ns_tag ''rdfs'' ''comment'' then
        (owl_class\<lparr>comment := text_f child\<rparr>,
         ts @ [(iri owl_class, ''rdfs:comment'', text_f child)])
      else if tag child = get_ns_tag ''owl'' ''deprecated'' then
        (owl_class\<lparr>deprecated := True\<rparr>,
         ts @ [(iri owl_class, ''owl:deprecated'', Some ''true'')])
      else if tag child = get_ns_tag ''skos'' ''prefLabel'' then
        (owl_class\<lparr>preferred_label := text_f child\<rparr>, ts)
      else if tag child = get_ns_tag ''skos'' ''altLabel'' then
        ((case attrib_get child (get_ns_tag ''xml'' ''lang'') of
            Some lang \<Rightarrow>
              if lang \<noteq> [] then
                owl_class\<lparr>translations_f := (translations_f owl_class)(lang \<mapsto> text_f child)\<rparr>
              else
                owl_class\<lparr>alternative_labels := alternative_labels owl_class @ [text_f child]\<rparr>
          | None \<Rightarrow>
              owl_class\<lparr>alternative_labels := alternative_labels owl_class @ [text_f child]\<rparr>),
         ts @ [(iri owl_class, ''skos:altLabel'', text_f child)])
      else if tag child = get_ns_tag ''skos'' ''hiddenLabel'' then
        (owl_class\<lparr>hidden_label := text_f child,
                   alternative_labels := alternative_labels owl_class @ [text_f child]\<rparr>,
         ts @ [(iri owl_class, ''skos:hiddenLabel'', text_f child)])
      else if tag child = get_ns_tag ''skos'' ''definition'' then
        (owl_class\<lparr>definition_f := text_f child\<rparr>,
         ts @ [(iri owl_class, ''skos:definition'', text_f child)])
      else if tag child = get_ns_tag ''skos'' ''example'' then
        (owl_class\<lparr>examples := examples owl_class @ [text_f child]\<rparr>,
         ts @ [(iri owl_class, ''skos:example'', text_f child)])
      else if tag child = get_ns_tag ''skos'' ''note'' then
        (owl_class\<lparr>notes_f := notes_f owl_class @ [text_f child]\<rparr>,
         ts @ [(iri owl_class, ''skos:note'', text_f child)])
      else if tag child = get_ns_tag ''skos'' ''historyNote'' then
        (owl_class\<lparr>history_note := text_f child\<rparr>,
         ts @ [(iri owl_class, ''skos:historyNote'', text_f child)])
      else if tag child = get_ns_tag ''skos'' ''editorialNote'' then
        (owl_class\<lparr>editorial_note := text_f child\<rparr>,
         ts @ [(iri owl_class, ''skos:editorialNote'', text_f child)])
      else if tag child = get_ns_tag ''skos'' ''inScheme'' then
        (owl_class\<lparr>in_scheme := text_f child\<rparr>,
         ts @ [(iri owl_class, ''skos:inScheme'', text_f child)])
      else if tag child = get_ns_tag ''dc'' ''identifier'' then
        (owl_class\<lparr>identifier_f := text_f child\<rparr>,
         ts @ [(iri owl_class, ''dc:identifier'', text_f child)])
      else if tag child = get_ns_tag ''dc'' ''description'' then
        (owl_class\<lparr>description := text_f child\<rparr>,
         ts @ [(iri owl_class, ''dc:description'', text_f child)])
      else if tag child = get_ns_tag ''dc'' ''source'' then
        (owl_class\<lparr>source := text_f child\<rparr>,
         ts @ [(iri owl_class, ''dc:source'', text_f child)])
      else if tag child = get_ns_tag ''v1'' ''country'' then
        (owl_class\<lparr>country := text_f child\<rparr>,
         ts @ [(iri owl_class, ''v1:country'', text_f child)])
      else (owl_class, ts))"

text \<open>
  A dictionary from strings to lists of positions, in insertion order:
  \<^verbatim>\<open>d.get(k, [])\<close>, and the update
  \<^verbatim>\<open>if k not in d: d[k] = [i] else: d[k].append(i)\<close>.
\<close>

definition dict_get :: "(string \<times> nat list) list \<Rightarrow> string \<Rightarrow> nat list" where
  "dict_get d k = (case map_of d k of Some v \<Rightarrow> v | None \<Rightarrow> [])"

fun dict_append :: "(string \<times> nat list) list \<Rightarrow> string \<Rightarrow> nat \<Rightarrow> (string \<times> nat list) list" where
  "dict_append [] k i = [(k, [i])]"
| "dict_append ((k', v) # d) k i =
     (if k' = k then (k', v @ [i]) # d else (k', v) # dict_append d k i)"

text \<open>The loop of \<^verbatim>\<open>parse_owl_class\<close> over the alternative labels of an accepted entity.\<close>

definition index_alt_label :: "nat \<Rightarrow> SOLI \<Rightarrow> string option \<Rightarrow> SOLI" where
  "index_alt_label index s alt_label =
     (case alt_label of
        Some a \<Rightarrow>
          if a \<noteq> [] then
            s\<lparr>alt_label_to_index := dict_append (alt_label_to_index s) a index\<rparr>
          else s
      | None \<Rightarrow> s)"

text \<open>
  The second half of \<^verbatim>\<open>parse_owl_class\<close>, from "append and update indices" on:
  the accepted entity takes the next position and enters the three indices.
\<close>

definition index_class :: "SOLI \<Rightarrow> OWLClass \<Rightarrow> SOLI" where
  "index_class s owl_class =
     (let s2 = s\<lparr>classes := classes s @ [owl_class]\<rparr>;
          index = length (classes s2) - 1;
          s3 = s2\<lparr>iri_to_index := (iri_to_index s2)(iri owl_class \<mapsto> index)\<rparr>;
          s4 = (case label owl_class of
                  Some l \<Rightarrow>
                    if l \<noteq> [] then
                      s3\<lparr>label_to_index := dict_append (label_to_index s3) l index\<rparr>
                    else s3
                | None \<Rightarrow> s3)
      in foldl (index_alt_label index) s4 (alternative_labels owl_class))"

text \<open>
  \<^verbatim>\<open>parse_owl_class\<close>. A node without \<^verbatim>\<open>rdf:about\<close> is skipped. The triples of
  the children are appended to the log before the validity check, so they stay in
  the log when the entity is dropped.
\<close>

definition parse_owl_class :: "SOLI \<Rightarrow> node \<Rightarrow> SOLI" where
  "parse_owl_class s n =
     (case attrib_get n (get_ns_tag ''rdf'' ''about'') of
        None \<Rightarrow> s
      | Some i \<Rightarrow>
          let st = foldl parse_child (OWLClass_new i, triples s) (getchildren n);
              owl_class = fst st;
              s1 = s\<lparr>triples := snd st\<rparr>
          in if \<not> is_valid owl_class \<and> iri owl_class \<noteq> OWL_THING then s1
             else index_class s1 owl_class)"

definition parse_ontology_child :: "SOLI \<Rightarrow> node \<Rightarrow> SOLI" where
  "parse_ontology_child s child =
     (if tag child = get_ns_tag ''dc'' ''title'' then s\<lparr>title := text_f child\<rparr>
      else if tag child = get_ns_tag ''dc'' ''description'' then
        s\<lparr>soli_description := text_f child\<rparr>
      else s)"

definition parse_owl_ontology :: "SOLI \<Rightarrow> node \<Rightarrow> SOLI" where
  "parse_owl_ontology s n = foldl parse_ontology_child s (getchildren n)"

definition parse_node :: "SOLI \<Rightarrow> node \<Rightarrow> SOLI" where
  "parse_node s n =
     (if tag n = get_ns_tag ''owl'' ''Class'' then parse_owl_class s n
      else if tag n = get_ns_tag ''owl'' ''Ontology'' then parse_owl_ontology s n
      else if tag n = get_ns_tag ''owl'' ''ObjectProperty'' then s
      else if tag n = get_ns_tag ''owl'' ''DatatypeProperty'' then s
      else if tag n = get_ns_tag ''owl'' ''AnnotationProperty'' then s
      else if tag n = get_ns_tag ''owl'' ''NamedIndividual'' then s
      else if tag n = get_ns_tag ''rdf'' ''Description'' then s
      else s)"

text \<open>
  The body of the inner loop that builds the class edges in \<^verbatim>\<open>parse_owl\<close>, for the
  entity with IRI \<^verbatim>\<open>child_iri\<close> and one entry of its \<^verbatim>\<open>sub_class_of\<close>. The reverse
  edge goes to \<^verbatim>\<open>self[parent_class]\<close>, found through the normalised IRI.
\<close>

definition add_edge :: "string \<Rightarrow> SOLI \<Rightarrow> string \<Rightarrow> error + SOLI" where
  "add_edge child_iri s parent_class =
     (if parent_class = OWL_THING then Inr s
      else
        let edges = (case class_edges s parent_class of Some es \<Rightarrow> es | None \<Rightarrow> []);
            s1 = s\<lparr>class_edges := (class_edges s)(parent_class \<mapsto> edges @ [child_iri])\<rparr>
        in if contains s1 parent_class then
             (case getitem_str s1 parent_class of
                Inl e \<Rightarrow> Inl e
              | Inr None \<Rightarrow> Inl AttributeError
              | Inr (Some parent) \<Rightarrow>
                  (case iri_to_index s1 (normalize_iri parent_class) of
                     None \<Rightarrow> Inl AttributeError
                   | Some j \<Rightarrow>
                       Inr (s1\<lparr>classes := (classes s1)
                              [j := parent\<lparr>parent_class_of :=
                                        parent_class_of parent @ [child_iri]\<rparr>]\<rparr>)))
           else Inr (s1\<lparr>warnings := warnings s1 @ [parent_class]\<rparr>))"

fun add_edges :: "string \<Rightarrow> SOLI \<Rightarrow> string list \<Rightarrow> error + SOLI" where
  "add_edges child_iri s [] = Inr s"
| "add_edges child_iri s (parent_class # ps) =
     (case add_edge child_iri s parent_class of
        Inl e \<Rightarrow> Inl e
      | Inr s' \<Rightarrow> add_edges child_iri s' ps)"

text \<open>
  The outer loop, over the positions of \<^verbatim>\<open>self.classes\<close>: the entity is read from
  the current state, since the pass updates entities in place.
\<close>

fun build_class_edges :: "SOLI \<Rightarrow> nat list \<Rightarrow> error + SOLI" where
  "build_class_edges s [] = Inr s"
| "build_class_edges s (i # rest) =
     (case py_index (classes s) (int i) of
        Inl e \<Rightarrow> Inl e
      | Inr owl_class \<Rightarrow>
          (case add_edges (iri owl_class) s (sub_class_of owl_class) of
             Inl e \<Rightarrow> Inl e
           | Inr s' \<Rightarrow> build_class_edges s' rest))"

text \<open>
  \<^verbatim>\<open>marisa_trie.Trie(keys)\<close> holds each key once; \<^verbatim>\<open>trie.keys(prefix)\<close> lists the
  keys that start with the prefix. The library lists them in an order of its own. The
  model lists them in the order of their first insertion, so among matched strings of
  equal length the order of a result of \<^verbatim>\<open>search_by_prefix\<close> with the trie may differ
  from the library's. The properties below rest only on the facts that every listed
  key starts with the prefix and that the keys are then sorted by length.
\<close>

definition Trie :: "string list \<Rightarrow> string list" where
  "Trie ks = remdups ks"

definition Trie_keys :: "string list \<Rightarrow> string \<Rightarrow> string list" where
  "Trie_keys t p = filter (prefix p) t"

text \<open>
  \<^verbatim>\<open>parse_owl\<close>, from the root element on (the XML reader is outside the model).
  \<^verbatim>\<open>marisa_trie\<close> tells whether the optional module of that name was imported.
\<close>

definition parse_owl :: "bool \<Rightarrow> SOLI \<Rightarrow> node \<Rightarrow> error + SOLI" where
  "parse_owl marisa_trie s tree =
     (let s1 = foldl parse_node s (getchildren tree) in
      case build_class_edges s1 [0..<length (classes s1)] of
        Inl e \<Rightarrow> Inl e
      | Inr s2 \<Rightarrow>
          let s3 = s2\<lparr>cached_triples := triples s2\<rparr> in
          if marisa_trie then
            Inr (s3\<lparr>label_trie := Some (Trie
                   (filter (\<lambda>l. length l \<ge> MIN_PREFIX_LENGTH)
                      (map fst (label_to_index s3) @ map fst (alt_label_to_index s3))))\<rparr>)
          else Inr s3)"

section \<open>Traversal\<close>

text \<open>
  The loop \<^verbatim>\<open>for p in ...: subgraph.extend(f(p))\<close>: the results of the calls are
  concatenated in order, and the first call that raises ends the loop.
\<close>

fun extend_all :: "(error + 'a list) list \<Rightarrow> error + 'a list" where
  "extend_all [] = Inr []"
| "extend_all (r # rs) =
     (case r of
        Inl e \<Rightarrow> Inl e
      | Inr xs \<Rightarrow> (case extend_all rs of Inl e \<Rightarrow> Inl e | Inr ys \<Rightarrow> Inr (xs @ ys)))"

text \<open>
  \<^verbatim>\<open>get_parents\<close>. Its \<^verbatim>\<open>max_depth\<close> is a Python \<^verbatim>\<open>int\<close> and the test that ends
  the recursion is \<^verbatim>\<open>max_depth != 0\<close>. The first argument bounds the depth of nested
  calls, as the recursion limit of the interpreter does: where it is used up the
  call raises \<^verbatim>\<open>RecursionError\<close> and returns no list.
\<close>

fun get_parents :: "nat \<Rightarrow> SOLI \<Rightarrow> string \<Rightarrow> int \<Rightarrow> error + OWLClass list" where
  "get_parents 0 s i max_depth = Inl RecursionError"
| "get_parents (Suc fuel) s i max_depth =
     (case iri_to_index s (normalize_iri i) of
        None \<Rightarrow> Inr []
      | Some index \<Rightarrow>
          (case py_index (classes s) (int index) of
             Inl e \<Rightarrow> Inl e
           | Inr owl_class \<Rightarrow>
               if max_depth \<noteq> 0 then
                 (case extend_all
                         (map (\<lambda>parent_class. get_parents fuel s parent_class (max_depth - 1))
                            (sub_class_of owl_class)) of
                    Inl e \<Rightarrow> Inl e
                  | Inr rest \<Rightarrow> Inr (owl_class # rest))
               else Inr [owl_class]))"

text \<open>
  \<^term>\<open>hop_chain s i k e\<close>: the entity \<open>e\<close> is reached from the IRI \<open>i\<close> by a chain
  of exactly \<open>k\<close> steps, each from an entity to the entity that one entry of its
  \<^verbatim>\<open>sub_class_of\<close> resolves to.
\<close>

inductive hop_chain :: "SOLI \<Rightarrow> string \<Rightarrow> nat \<Rightarrow> OWLClass \<Rightarrow> bool" where
  here: "iri_to_index s (normalize_iri i) = Some j \<Longrightarrow> j < length (classes s) \<Longrightarrow>
         hop_chain s i 0 (classes s ! j)"
| hop: "iri_to_index s (normalize_iri i) = Some j \<Longrightarrow> j < length (classes s) \<Longrightarrow>
        p \<in> set (sub_class_of (classes s ! j)) \<Longrightarrow> hop_chain s p k e \<Longrightarrow>
        hop_chain s i (Suc k) e"

section \<open>Search\<close>

text \<open>
  \<^verbatim>\<open>search_by_prefix\<close> returns its result and the instance with the result cached.
  \<^verbatim>\<open>sorted(..., key=len)\<close> is a stable sort, as \<^const>\<open>sort_key\<close> is.
\<close>

definition search_by_prefix :: "bool \<Rightarrow> SOLI \<Rightarrow> string \<Rightarrow> error + OWLClass option list \<times> SOLI" where
  "search_by_prefix marisa_trie s p =
     (case prefix_cache s p of
        Some cached \<Rightarrow> Inr (cached, s)
      | None \<Rightarrow>
          (case (if marisa_trie then
                   (case label_trie s of
                      None \<Rightarrow> Inl AttributeError
                    | Some t \<Rightarrow> Inr (sort_key length (Trie_keys t p)))
                 else
                   Inr (sort_key length
                          (filter (prefix p)
                             (map fst (label_to_index s) @ map fst (alt_label_to_index s))))) of
             Inl e \<Rightarrow> Inl e
           | Inr keys \<Rightarrow>
               let iri_list = concat (map (\<lambda>key. dict_get (label_to_index s) key @
                                               dict_get (alt_label_to_index s) key) keys);
                   cs = map (\<lambda>index. getitem_int s (int index)) iri_list
               in Inr (cs, s\<lparr>prefix_cache := (prefix_cache s)(p \<mapsto> cs)\<rparr>)))"

text \<open>
  \<^verbatim>\<open>refresh\<close>. Its second argument is the root element of the document that
  \<^verbatim>\<open>load_owl\<close> returns at that moment. The fields it clears are the ones the source
  clears.
\<close>

definition refresh :: "bool \<Rightarrow> SOLI \<Rightarrow> node \<Rightarrow> error + SOLI" where
  "refresh marisa_trie s tree =
     parse_owl marisa_trie
       (s\<lparr>title := None, soli_description := None, classes := [],
          iri_to_index := Map.empty, label_to_index := [], alt_label_to_index := [],
          class_edges := Map.empty, triples := [], cached_triples := []\<rparr>)
       tree"

text \<open>
  The module \<^verbatim>\<open>rapidfuzz\<close> is outside the repository; of it the model keeps the two
  scorers the source names, each applied to the query and a choice after the default
  preprocessing. \<^verbatim>\<open>rapidfuzz.process.extract\<close> scores every choice and returns the
  \<^verbatim>\<open>limit\<close> best ones as (choice, score, position), best first. For a negative
  \<^verbatim>\<open>limit\<close> the library raises; \<open>ExtractError\<close> stands for its exception.
\<close>

record fuzz =
  WRatio :: "string \<Rightarrow> string \<Rightarrow> real"
  partial_token_set_ratio :: "string \<Rightarrow> string \<Rightarrow> real"

definition process_extract ::
  "(string \<Rightarrow> string \<Rightarrow> real) \<Rightarrow> string \<Rightarrow> string list \<Rightarrow> int \<Rightarrow>
   error + (string \<times> real \<times> nat) list" where
  "process_extract scorer query choices limit =
     (if limit < 0 then Inl ExtractError
      else Inr (take (nat limit)
                  (sort_key (\<lambda>r. - fst (snd r))
                     (map (\<lambda>(i, c). (c, scorer query c, i)) (enumerate 0 choices)))))"

definition basic_search ::
  "fuzz \<Rightarrow> string \<Rightarrow> string list \<Rightarrow> int \<Rightarrow> string \<Rightarrow>
   error + (string \<times> real \<times> nat) list" where
  "basic_search rf query search_list limit search_type =
     (case process_extract
             (if search_type = ''string'' then WRatio rf else partial_token_set_ratio rf)
             query search_list limit of
        Inl e \<Rightarrow> Inl e
      | Inr found \<Rightarrow> Inr (sort_key (\<lambda>x. (- fst (snd x), length (fst x))) found))"

definition get_by_label :: "SOLI \<Rightarrow> string \<Rightarrow> bool \<Rightarrow> OWLClass option list" where
  "get_by_label s l include_alt_labels =
     map (\<lambda>index. getitem_int s (int index)) (dict_get (label_to_index s) l) @
     (if include_alt_labels then
        map (\<lambda>index. getitem_int s (int index)) (dict_get (alt_label_to_index s) l)
      else [])"

text \<open>
  The inner loop of \<^verbatim>\<open>search_by_label\<close> over the entities of one matched string. Its
  state is \<^verbatim>\<open>results\<close> and \<^verbatim>\<open>seen_classes\<close>; \<^verbatim>\<open>break\<close> leaves this loop only.
\<close>

fun collect_classes ::
  "int \<Rightarrow> real \<Rightarrow> (OWLClass \<times> real) list \<times> string set \<Rightarrow> OWLClass option list \<Rightarrow>
   error + (OWLClass \<times> real) list \<times> string set" where
  "collect_classes limit score st [] = Inr st"
| "collect_classes limit score st (None # cs) = Inl AttributeError"
| "collect_classes limit score st (Some label_class # cs) =
     (let st' = (if iri label_class \<notin> snd st
                 then (fst st @ [(label_class, score)], insert (iri label_class) (snd st))
                 else st)
      in if int (length (fst st')) \<ge> limit then Inr st'
         else collect_classes limit score st' cs)"

text \<open>The outer loop, over the matched strings.\<close>

fun search_loop ::
  "SOLI \<Rightarrow> bool \<Rightarrow> int \<Rightarrow> (OWLClass \<times> real) list \<times> string set \<Rightarrow> (string \<times> real \<times> nat) list \<Rightarrow>
   error + (OWLClass \<times> real) list \<times> string set" where
  "search_loop s include_alt_labels limit st [] = Inr st"
| "search_loop s include_alt_labels limit st (m # ms) =
     (case collect_classes limit (fst (snd m)) st (get_by_label s (fst m) include_alt_labels) of
        Inl e \<Rightarrow> Inl e
      | Inr st' \<Rightarrow> search_loop s include_alt_labels limit st' ms)"

text \<open>\<^verbatim>\<open>search_by_label\<close>; \<^verbatim>\<open>rapidfuzz\<close> is \<^verbatim>\<open>None\<close> when the module is absent.\<close>

definition search_by_label ::
  "fuzz option \<Rightarrow> SOLI \<Rightarrow> string \<Rightarrow> bool \<Rightarrow> int \<Rightarrow> error + (OWLClass \<times> real) list" where
  "search_by_label rapidfuzz s l include_alt_labels limit =
     (case rapidfuzz of
        None \<Rightarrow> Inl RuntimeError
      | Some rf \<Rightarrow>
          let search_labels =
                (if \<not> include_alt_labels then map fst (label_to_index s)
                 else map fst (label_to_index s) @ map fst (alt_label_to_index s))
          in case basic_search rf l search_labels limit ''string'' of
               Inl e \<Rightarrow> Inl e
             | Inr matches \<Rightarrow>
                 (case search_loop s include_alt_labels limit ([], {}) matches of
                    Inl e \<Rightarrow> Inl e
                  | Inr st \<Rightarrow> Inr (fst st)))"

section \<open>Triples\<close>

text \<open>
  \<^verbatim>\<open>_filter_triples\<close> is memoised on all its arguments, the frozen triple sequence
  among them, so the memo never changes what it returns.
\<close>

definition filter_triples :: "triple list \<Rightarrow> string \<Rightarrow> string \<Rightarrow> error + triple list" where
  "filter_triples ts v filter_by =
     (if filter_by = ''predicate'' then Inr (filter (\<lambda>t. fst (snd t) = v) ts)
      else if filter_by = ''subject'' then Inr (filter (\<lambda>t. fst t = v) ts)
      else if filter_by = ''object'' then Inr (filter (\<lambda>t. snd (snd t) = Some v) ts)
      else Inl ValueError)"

definition get_triples_by_subject :: "SOLI \<Rightarrow> string \<Rightarrow> error + triple list" where
  "get_triples_by_subject s subject = filter_triples (cached_triples s) subject ''subject''"

definition get_triples_by_predicate :: "SOLI \<Rightarrow> string \<Rightarrow> error + triple list" where
  "get_triples_by_predicate s predicate = filter_triples (cached_triples s) predicate ''predicate''"

definition get_triples_by_object :: "SOLI \<Rightarrow> string \<Rightarrow> error + triple list" where
  "get_triples_by_object s obj = filter_triples (cached_triples s) obj ''object''"

text \<open>
  \<^verbatim>\<open>SOLI.__init__\<close>, from the root element of the document that \<^verbatim>\<open>load_owl\<close>
  returned.
\<close>

definition SOLI_new :: "bool \<Rightarrow> node \<Rightarrow> error + SOLI" where
  "SOLI_new marisa_trie tree = parse_owl marisa_trie SOLI_init tree"

section \<open>Example documents\<close>

definition rdf_root :: "node list \<Rightarrow> node" where
  "rdf_root ch = Node ''{http://www.w3.org/1999/02/22-rdf-syntax-ns#}RDF'' [] None ch"

definition class_node :: "string \<Rightarrow> node list \<Rightarrow> node" where
  "class_node i ch =
     Node ''{http://www.w3.org/2002/07/owl#}Class''
       [(''{http://www.w3.org/1999/02/22-rdf-syntax-ns#}about'', i)] None ch"

definition label_node :: "string \<Rightarrow> node" where
  "label_node l = Node ''{http://www.w3.org/2000/01/rdf-schema#}label'' [] (Some l) []"

definition pref_label_node :: "string \<Rightarrow> node" where
  "pref_label_node l = Node ''{http://www.w3.org/2004/02/skos/core#}prefLabel'' [] (Some l) []"

definition sub_class_of_node :: "string \<Rightarrow> node" where
  "sub_class_of_node p =
     Node ''{http://www.w3.org/2000/01/rdf-schema#}subClassOf''
       [(''{http://www.w3.org/1999/02/22-rdf-syntax-ns#}resource'', p)] None []"

definition see_also_node :: "string \<Rightarrow> string \<Rightarrow> node" where
  "see_also_node r t =
     Node ''{http://www.w3.org/2000/01/rdf-schema#}seeAlso''
       [(''{http://www.w3.org/1999/02/22-rdf-syntax-ns#}resource'', r)] (Some t) []"

text \<open>
  Two classes: Beta is a subclass of Alpha, of the undeclared \<^verbatim>\<open>soli:Zed\<close> and of
  \<^verbatim>\<open>owl:Thing\<close>.
\<close>

definition doc_family :: node where
  "doc_family = rdf_root
     [class_node ''https://soli.openlegalstandard.org/A'' [label_node ''Alpha''],
      class_node ''https://soli.openlegalstandard.org/B''
        [label_node ''Beta'',
         sub_class_of_node ''https://soli.openlegalstandard.org/A'',
         sub_class_of_node ''soli:Zed'',
         sub_class_of_node ''http://www.w3.org/2002/07/owl#Thing'']]"

definition ent_A :: OWLClass where
  "ent_A = (OWLClass_new ''https://soli.openlegalstandard.org/A'')
     \<lparr>label := Some ''Alpha'', parent_class_of := [''https://soli.openlegalstandard.org/B'']\<rparr>"

definition ent_B :: OWLClass where
  "ent_B = (OWLClass_new ''https://soli.openlegalstandard.org/B'')
     \<lparr>label := Some ''Beta'',
      sub_class_of := [''https://soli.openlegalstandard.org/A'', ''soli:Zed'',
                       ''http://www.w3.org/2002/07/owl#Thing'']\<rparr>"

text \<open>A class whose IRI is a bare token, and a subclass that names it as declared.\<close>

definition doc_bare :: node where
  "doc_bare = rdf_root
     [class_node ''abc'' [label_node ''Bare''],
      class_node ''https://soli.openlegalstandard.org/B''
        [label_node ''Beta'', sub_class_of_node ''abc'']]"

text \<open>Two classes with one IRI.\<close>

definition doc_dup :: node where
  "doc_dup = rdf_root
     [class_node ''https://soli.openlegalstandard.org/D'' [label_node ''First''],
      class_node ''https://soli.openlegalstandard.org/D'' [label_node ''Second'']]"



text \<open>A class that declares itself as its parent.\<close>

definition doc_cycle :: node where
  "doc_cycle = rdf_root
     [class_node ''https://soli.openlegalstandard.org/C''
        [label_node ''Cyc'', sub_class_of_node ''https://soli.openlegalstandard.org/C'']]"

definition ent_C :: OWLClass where
  "ent_C = (OWLClass_new ''https://soli.openlegalstandard.org/C'')
     \<lparr>label := Some ''Cyc'', sub_class_of := [''https://soli.openlegalstandard.org/C''],
      parent_class_of := [''https://soli.openlegalstandard.org/C'']\<rparr>"

text \<open>Two classes labelled Alpha and two labelled Gamma.\<close>

definition doc_labels :: node where
  "doc_labels = rdf_root
     [class_node ''https://soli.openlegalstandard.org/P1'' [label_node ''Alpha''],
      class_node ''https://soli.openlegalstandard.org/P2'' [label_node ''Alpha''],
      class_node ''https://soli.openlegalstandard.org/Q1'' [label_node ''Gamma''],
      class_node ''https://soli.openlegalstandard.org/Q2'' [label_node ''Gamma'']]"

text \<open>One class, labelled Michigan.\<close>

definition doc_mich :: node where
  "doc_mich = rdf_root
     [class_node ''https://soli.openlegalstandard.org/M'' [label_node ''Michigan'']]"

definition ent_M :: OWLClass where
  "ent_M = (OWLClass_new ''https://soli.openlegalstandard.org/M'')\<lparr>label := Some ''Michigan''\<rparr>"

text \<open>
  A run of one instance: load \<^const>\<open>doc_mich\<close>, search the prefix \<^verbatim>\<open>Mich\<close>, refresh
  to a document without classes, search the prefix \<^verbatim>\<open>Mich\<close> again. The value is the
  entity sequence after the refresh and the result of the second search.
\<close>

definition refresh_scenario :: "bool \<Rightarrow> (OWLClass list \<times> OWLClass option list) option" where
  "refresh_scenario marisa_trie =
     (case SOLI_new marisa_trie doc_mich of
        Inl e \<Rightarrow> None
      | Inr s1 \<Rightarrow>
          (case search_by_prefix marisa_trie s1 ''Mich'' of
             Inl e \<Rightarrow> None
           | Inr (r1, s2) \<Rightarrow>
               (case refresh marisa_trie s2 (rdf_root []) of
                  Inl e \<Rightarrow> None
                | Inr s3 \<Rightarrow>
                    (case search_by_prefix marisa_trie s3 ''Mich'' of
                       Inl e \<Rightarrow> None
                     | Inr (r2, s4) \<Rightarrow> Some (classes s3, r2)))))"

section \<open>Invariants of a snapshot\<close>

text \<open>
  \<^term>\<open>fresh s\<close>: the ontology structures are empty, as \<^verbatim>\<open>__init__\<close> and \<^verbatim>\<open>refresh\<close>
  leave them before they parse.
\<close>

definition fresh :: "SOLI \<Rightarrow> bool" where
  "fresh s \<longleftrightarrow> classes s = [] \<and> iri_to_index s = Map.empty \<and> label_to_index s = [] \<and>
     alt_label_to_index s = [] \<and> class_edges s = Map.empty \<and> triples s = []"

text \<open>Every indexed IRI leads to a position that holds an entity with that IRI.\<close>

definition index_inv :: "SOLI \<Rightarrow> bool" where
  "index_inv s \<longleftrightarrow>
     (\<forall>k j. iri_to_index s k = Some j \<longrightarrow> j < length (classes s) \<and> iri (classes s ! j) = k) \<and>
     (\<forall>c \<in> set (classes s). iri_to_index s (iri c) \<noteq> None)"

text \<open>Every position under a string in a label index holds an entity with that string.\<close>

definition label_inv :: "SOLI \<Rightarrow> bool" where
  "label_inv s \<longleftrightarrow>
     (\<forall>k v x. (k, v) \<in> set (label_to_index s) \<longrightarrow> x \<in> set v \<longrightarrow>
        x < length (classes s) \<and> label (classes s ! x) = Some k) \<and>
     (\<forall>k v x. (k, v) \<in> set (alt_label_to_index s) \<longrightarrow> x \<in> set v \<longrightarrow>
        x < length (classes s) \<and> Some k \<in> set (alternative_labels (classes s ! x)))"

definition no_parents :: "SOLI \<Rightarrow> bool" where
  "no_parents s \<longleftrightarrow> (\<forall>c \<in> set (classes s). parent_class_of c = [])"

text \<open>
  What the pass that builds the class edges computes. \<^term>\<open>edge_pairs cs\<close> lists the
  (child IRI, declared parent) pairs in the order the two loops visit them;
  \<^term>\<open>derived s ps j\<close> are the children the pairs \<open>ps\<close> give the entity at position
  \<open>j\<close>; \<^term>\<open>dangling s ps\<close> are the declared parents that do not resolve.
  \<^term>\<open>edge_rel s ps s'\<close> relates the states before and after the pairs \<open>ps\<close>.
\<close>

definition static :: "OWLClass \<Rightarrow> OWLClass" where
  "static c = c\<lparr>parent_class_of := []\<rparr>"

definition edge_pairs :: "OWLClass list \<Rightarrow> (string \<times> string) list" where
  "edge_pairs cs = concat (map (\<lambda>c. map (\<lambda>p. (iri c, p)) (sub_class_of c)) cs)"

definition derived :: "SOLI \<Rightarrow> (string \<times> string) list \<Rightarrow> nat \<Rightarrow> string list" where
  "derived s ps j =
     map fst (filter (\<lambda>cp. snd cp \<noteq> OWL_THING \<and>
                            iri_to_index s (normalize_iri (snd cp)) = Some j) ps)"

definition dangling :: "SOLI \<Rightarrow> (string \<times> string) list \<Rightarrow> string list" where
  "dangling s ps =
     map snd (filter (\<lambda>cp. snd cp \<noteq> OWL_THING \<and>
                            iri_to_index s (normalize_iri (snd cp)) = None) ps)"

definition edge_rel :: "SOLI \<Rightarrow> (string \<times> string) list \<Rightarrow> SOLI \<Rightarrow> bool" where
  "edge_rel s ps s' \<longleftrightarrow>
     length (classes s') = length (classes s) \<and>
     map static (classes s') = map static (classes s) \<and>
     iri_to_index s' = iri_to_index s \<and>
     label_to_index s' = label_to_index s \<and>
     alt_label_to_index s' = alt_label_to_index s \<and>
     prefix_cache s' = prefix_cache s \<and>
     triples s' = triples s \<and>
     class_edges s' OWL_THING = class_edges s OWL_THING \<and>
     (\<forall>j < length (classes s).
        parent_class_of (classes s' ! j) = parent_class_of (classes s ! j) @ derived s ps j) \<and>
     warnings s' = warnings s @ dangling s ps"

text \<open>
  \<^term>\<open>prefix_result_ok p r\<close>: every element of the result \<open>r\<close> is an entity, and the
  elements can be given matched strings, each starting with \<open>p\<close> and each a label or
  alternative label of its entity, whose lengths do not decrease along the result.
\<close>

definition prefix_result_ok :: "string \<Rightarrow> OWLClass option list \<Rightarrow> bool" where
  "prefix_result_ok p r \<longleftrightarrow>
     (\<exists>ms. length ms = length r \<and> sorted (map length ms) \<and>
        (\<forall>i<length r. prefix p (ms ! i) \<and>
           (\<exists>e. r ! i = Some e \<and>
              (label e = Some (ms ! i) \<or> Some (ms ! i) \<in> set (alternative_labels e)))))"

text \<open>
  The states an instance goes through: built by \<^verbatim>\<open>__init__\<close>, then any sequence of
  prefix searches and refreshes that return.
\<close>

inductive reachable :: "bool \<Rightarrow> SOLI \<Rightarrow> bool" for marisa_trie :: bool where
  init: "SOLI_new marisa_trie tree = Inr s \<Longrightarrow> reachable marisa_trie s"
| search: "reachable marisa_trie s \<Longrightarrow> search_by_prefix marisa_trie s p = Inr (r, s') \<Longrightarrow>
           reachable marisa_trie s'"
| refreshed: "reachable marisa_trie s \<Longrightarrow> refresh marisa_trie s tree = Inr s' \<Longrightarrow>
           reachable marisa_trie s'"

definition cache_ok :: "SOLI \<Rightarrow> bool" where
  "cache_ok s \<longleftrightarrow> (\<forall>p r. prefix_cache s p = Some r \<longrightarrow> prefix_result_ok p r)"

text \<open>
  \<^term>\<open>same_onto a b\<close>: the two states agree on the ontology structures, that is on
  everything but the title and description, the prefix cache, the trie, the frozen
  triples and the warnings.
\<close>

definition same_onto :: "SOLI \<Rightarrow> SOLI \<Rightarrow> bool" where
  "same_onto a b \<longleftrightarrow> classes a = classes b \<and> iri_to_index a = iri_to_index b \<and>
     label_to_index a = label_to_index b \<and> alt_label_to_index a = alt_label_to_index b \<and>
     class_edges a = class_edges b \<and> triples a = triples b"

section \<open>Properties\<close>

subsection \<open>Evaluation of the examples\<close>

lemmas eval_defs =
  SOLI_new_def parse_owl_def parse_node_def parse_owl_class_def index_class_def
  index_alt_label_def parse_child_def parse_owl_ontology_def parse_ontology_child_def
  get_ns_tag_def NSMAP_def attrib_get_def OWLClass_new_def is_valid_def OWL_THING_def
  add_edge_def contains_def getitem_str_def getitem_int_def py_index_def normalize_iri_def
  SOLI_BASE_def LMSS_BASE_def Trie_def Trie_keys_def MIN_PREFIX_LENGTH_def SOLI_init_def
  rdf_root_def class_node_def label_node_def pref_label_node_def sub_class_of_node_def
  see_also_node_def dict_get_def Let_def

lemma doc_family_classes:
  "(case SOLI_new True doc_family of Inr s \<Rightarrow> classes s | Inl e \<Rightarrow> []) = [ent_A, ent_B]"
  by (simp add: eval_defs doc_family_def ent_A_def ent_B_def)

subsection \<open>Lookup by position\<close>

text \<open>
  C8, as the code has it. Lookup by an integer position \<open>i\<close> returns the entity at
  position \<open>i\<close> when \<open>0 \<le> i < n\<close>, where \<open>n\<close> is the entity count; it returns the
  entity at position \<open>n + i\<close> when \<open>-n \<le> i < 0\<close> (a negative position counts from the
  end); it returns \<^verbatim>\<open>None\<close> for every other integer. It never raises.
\<close>

theorem getitem_int_positions:
  "getitem_int s i =
     (if 0 \<le> i \<and> i < int (length (classes s)) then Some (classes s ! nat i)
      else if - int (length (classes s)) \<le> i \<and> i < 0
        then Some (classes s ! nat (int (length (classes s)) + i))
      else None)"
  by (simp add: getitem_int_def py_index_def Let_def)

text \<open>
  C8 as stated fails: in the snapshot of \<^const>\<open>doc_family\<close>, which has two entities,
  the position \<open>-1\<close> is out of range and yet the lookup returns the last entity.
\<close>

theorem getitem_int_negative_counterexample:
  "(case SOLI_new True doc_family of Inr s \<Rightarrow> getitem_int s (- 1) | Inl e \<Rightarrow> None) = Some ent_B"
  by (simp add: eval_defs doc_family_def ent_B_def)

subsection \<open>The children of a Class node\<close>

text \<open>
  C9. A \<^verbatim>\<open>skos:prefLabel\<close> child sets \<^verbatim>\<open>preferred_label\<close> to its text and leaves the
  triple log as it is. Every other child that changes the entity appends exactly one
  triple to the log.
\<close>

theorem pref_label_emits_no_triple:
  "(tag child = get_ns_tag ''skos'' ''prefLabel'' \<longrightarrow>
      parse_child (c, ts) child = (c\<lparr>preferred_label := text_f child\<rparr>, ts)) \<and>
   (tag child \<noteq> get_ns_tag ''skos'' ''prefLabel'' \<longrightarrow>
      fst (parse_child (c, ts) child) \<noteq> c \<longrightarrow>
      (\<exists>t. snd (parse_child (c, ts) child) = ts @ [t]))"
proof (intro conjI impI)
  assume "tag child = get_ns_tag ''skos'' ''prefLabel''"
  then have t: "tag child = ''{http://www.w3.org/2004/02/skos/core#}prefLabel''"
    by (simp add: get_ns_tag_def NSMAP_def)
  show "parse_child (c, ts) child = (c\<lparr>preferred_label := text_f child\<rparr>, ts)"
    by (simp add: parse_child_def t get_ns_tag_def NSMAP_def)
next
  assume a: "tag child \<noteq> get_ns_tag ''skos'' ''prefLabel''"
    and b: "fst (parse_child (c, ts) child) \<noteq> c"
  obtain c' ts' where r: "parse_child (c, ts) child = (c', ts')"
    by (cases "parse_child (c, ts) child")
  have "c' \<noteq> c" using b r by simp
  with r a have "\<exists>t. ts' = ts @ [t]"
    unfolding parse_child_def Let_def
    by (auto split: if_splits option.splits)
  then show "\<exists>t. snd (parse_child (c, ts) child) = ts @ [t]" by (simp add: r)
qed

theorem pref_label_emits_no_triple_witness:
  "parse_child (OWLClass_new ''x'', []) (pref_label_node ''P'') =
     ((OWLClass_new ''x'')\<lparr>preferred_label := Some ''P''\<rparr>, []) \<and>
   (\<exists>t. snd (parse_child (OWLClass_new ''x'', []) (label_node ''L'')) = [t])"
proof -
  have 1: "tag (pref_label_node ''P'') = get_ns_tag ''skos'' ''prefLabel''"
    by (simp add: pref_label_node_def get_ns_tag_def NSMAP_def)
  have 2: "tag (label_node ''L'') \<noteq> get_ns_tag ''skos'' ''prefLabel''"
    by (simp add: label_node_def get_ns_tag_def NSMAP_def)
  have 3: "fst (parse_child (OWLClass_new ''x'', []) (label_node ''L'')) \<noteq> OWLClass_new ''x''"
    by (simp add: parse_child_def label_node_def get_ns_tag_def NSMAP_def OWLClass_new_def)
  have 4: "text_f (pref_label_node ''P'') = Some ''P''"
    by (simp add: pref_label_node_def)
  show ?thesis
    using pref_label_emits_no_triple[of "pref_label_node ''P''" "OWLClass_new ''x''" "[]"]
      pref_label_emits_no_triple[of "label_node ''L''" "OWLClass_new ''x''" "[]"] 1 2 3 4
    by simp
qed

text \<open>
  C10. For an \<^verbatim>\<open>rdfs:seeAlso\<close> child: without an \<^verbatim>\<open>rdf:resource\<close> attribute, or with
  an empty one, neither the entity nor the triple log changes; with one, the object of
  the appended triple is the attribute value, and the value appended to \<^verbatim>\<open>see_also\<close>
  is the text of the child.
\<close>

theorem see_also_text_and_resource:
  assumes "tag child = get_ns_tag ''rdfs'' ''seeAlso''"
  shows "(\<not> truthy (attrib_get child (get_ns_tag ''rdf'' ''resource'')) \<longrightarrow>
            parse_child (c, ts) child = (c, ts)) \<and>
         (\<forall>r. attrib_get child (get_ns_tag ''rdf'' ''resource'') = Some r \<and> r \<noteq> [] \<longrightarrow>
            parse_child (c, ts) child =
              (c\<lparr>see_also := see_also c @ [text_f child]\<rparr>,
               ts @ [(iri c, ''rdfs:seeAlso'', Some r)]))"
proof -
  have t: "tag child = ''{http://www.w3.org/2000/01/rdf-schema#}seeAlso''"
    using assms by (simp add: get_ns_tag_def NSMAP_def)
  show ?thesis
    by (cases "attrib_get child (get_ns_tag ''rdf'' ''resource'')")
       (simp_all add: parse_child_def t get_ns_tag_def NSMAP_def)
qed

text \<open>The resource and the text differ in this child, and each goes to its place.\<close>

theorem see_also_text_and_resource_witness:
  "parse_child (OWLClass_new ''x'', []) (see_also_node ''http://example.org/r'' ''note'') =
     ((OWLClass_new ''x'')\<lparr>see_also := [Some ''note'']\<rparr>,
      [(''x'', ''rdfs:seeAlso'', Some ''http://example.org/r'')])"
proof -
  let ?n = "see_also_node ''http://example.org/r'' ''note''"
  have 1: "tag ?n = get_ns_tag ''rdfs'' ''seeAlso''"
    by (simp add: see_also_node_def get_ns_tag_def NSMAP_def)
  have 2: "attrib_get ?n (get_ns_tag ''rdf'' ''resource'') = Some ''http://example.org/r''"
    by (simp add: see_also_node_def attrib_get_def get_ns_tag_def NSMAP_def)
  have 3: "text_f ?n = Some ''note''" by (simp add: see_also_node_def)
  have 4: "iri (OWLClass_new ''x'') = ''x''" "see_also (OWLClass_new ''x'') = []"
    by (simp_all add: OWLClass_new_def)
  show ?thesis
    using see_also_text_and_resource[OF 1, of "OWLClass_new ''x''" "[]"] 2 3 4 by simp
qed

subsection \<open>IRI normalisation\<close>

lemma normalize_iri_canonical: "prefix SOLI_BASE i \<Longrightarrow> normalize_iri i = i"
  by (simp add: normalize_iri_def)

lemma count_list_0: "count_list xs x = 0 \<longleftrightarrow> x \<notin> set xs"
  by (induction xs) auto

lemma no_slash_not_lmss_base:
  assumes "CHR ''/'' \<notin> set t" shows "\<not> prefix LMSS_BASE t"
proof
  assume "prefix LMSS_BASE t"
  then have "set LMSS_BASE \<subseteq> set t" by (auto simp: prefix_def)
  then show False using assms by (simp add: LMSS_BASE_def)
qed

lemma normalize_iri_lmss:
  assumes "CHR ''/'' \<notin> set t"
  shows "normalize_iri (''lmss:'' @ t) = SOLI_BASE @ t"
  using assms no_slash_not_lmss_base[OF assms]
  by (simp add: normalize_iri_def count_list_0 SOLI_BASE_def)

lemma normalize_iri_legacy_url:
  assumes "CHR ''/'' \<notin> set t"
  shows "normalize_iri (LMSS_BASE @ t) = SOLI_BASE @ t"
  using assms
  by (simp add: normalize_iri_def count_list_0 SOLI_BASE_def LMSS_BASE_def)

lemma normalize_iri_soli:
  assumes "CHR ''/'' \<notin> set t" and "\<not> prefix ''lmss:'' t"
  shows "normalize_iri (''soli:'' @ t) = SOLI_BASE @ t"
  using assms no_slash_not_lmss_base[OF assms(1)]
  by (simp add: normalize_iri_def count_list_0 SOLI_BASE_def)

subsection \<open>What the parser keeps\<close>

lemma parse_child_keeps:
  assumes "parse_child (c, ts) child = (c', ts')"
  shows "iri c' = iri c \<and> parent_class_of c' = parent_class_of c"
  using assms unfolding parse_child_def Let_def
  by (auto split: if_splits option.splits)

lemma foldl_parse_child_keeps:
  "iri (fst (foldl parse_child st cs)) = iri (fst st) \<and>
   parent_class_of (fst (foldl parse_child st cs)) = parent_class_of (fst st)"
proof (induction cs arbitrary: st)
  case Nil
  show ?case by simp
next
  case (Cons a cs)
  obtain c ts where st: "st = (c, ts)" by (cases st)
  obtain c' ts' where r: "parse_child (c, ts) a = (c', ts')" by (cases "parse_child (c, ts) a")
  show ?case using Cons[of "(c', ts')"] parse_child_keeps[OF r] by (simp add: st r)
qed

lemma dict_append_set:
  "(k, v) \<in> set (dict_append d k0 i) \<Longrightarrow> x \<in> set v \<Longrightarrow>
     (\<exists>v0. (k, v0) \<in> set d \<and> x \<in> set v0) \<or> (k = k0 \<and> x = i)"
  by (induction d k0 i rule: dict_append.induct) (auto split: if_splits)

lemma index_alt_label_frame:
  "classes (index_alt_label idx s a) = classes s \<and>
   iri_to_index (index_alt_label idx s a) = iri_to_index s \<and>
   label_to_index (index_alt_label idx s a) = label_to_index s \<and>
   class_edges (index_alt_label idx s a) = class_edges s \<and>
   prefix_cache (index_alt_label idx s a) = prefix_cache s \<and>
   warnings (index_alt_label idx s a) = warnings s"
  by (simp add: index_alt_label_def split: option.splits)

lemma index_alt_label_entries:
  assumes "(k, v) \<in> set (alt_label_to_index (index_alt_label idx s a))" and "x \<in> set v"
  shows "(\<exists>v0. (k, v0) \<in> set (alt_label_to_index s) \<and> x \<in> set v0) \<or> (x = idx \<and> a = Some k)"
  using assms dict_append_set[of k v "alt_label_to_index s" _ idx x]
  by (auto simp add: index_alt_label_def split: option.splits if_splits)

lemma foldl_index_alt_label_frame:
  "classes (foldl (index_alt_label idx) s as) = classes s \<and>
   iri_to_index (foldl (index_alt_label idx) s as) = iri_to_index s \<and>
   label_to_index (foldl (index_alt_label idx) s as) = label_to_index s \<and>
   class_edges (foldl (index_alt_label idx) s as) = class_edges s \<and>
   prefix_cache (foldl (index_alt_label idx) s as) = prefix_cache s \<and>
   warnings (foldl (index_alt_label idx) s as) = warnings s"
  by (induction as arbitrary: s) (simp_all add: index_alt_label_frame)

lemma foldl_index_alt_label_entries:
  assumes "(k, v) \<in> set (alt_label_to_index (foldl (index_alt_label idx) s as))" and "x \<in> set v"
  shows "(\<exists>v0. (k, v0) \<in> set (alt_label_to_index s) \<and> x \<in> set v0) \<or>
         (x = idx \<and> Some k \<in> set as)"
  using assms
proof (induction as arbitrary: s)
  case Nil
  then show ?case by auto
next
  case (Cons a as)
  from Cons.IH[of "index_alt_label idx s a"] Cons.prems
  have "(\<exists>v0. (k, v0) \<in> set (alt_label_to_index (index_alt_label idx s a)) \<and> x \<in> set v0) \<or>
        (x = idx \<and> Some k \<in> set as)" by simp
  then show ?case using index_alt_label_entries[of k _ idx s a x] by auto
qed

lemma index_class_frame:
  "class_edges (index_class s oc) = class_edges s \<and>
   prefix_cache (index_class s oc) = prefix_cache s \<and>
   warnings (index_class s oc) = warnings s \<and>
   classes (index_class s oc) = classes s @ [oc] \<and>
   iri_to_index (index_class s oc) = (iri_to_index s)(iri oc \<mapsto> length (classes s))"
  by (simp add: index_class_def Let_def foldl_index_alt_label_frame split: option.splits)

lemma index_class_index_inv:
  assumes "index_inv s"
  shows "index_inv (index_class s oc)"
proof -
  have 1: "\<And>k j. iri_to_index s k = Some j \<Longrightarrow> j < length (classes s) \<and> iri (classes s ! j) = k"
    and 2: "\<And>c. c \<in> set (classes s) \<Longrightarrow> iri_to_index s (iri c) \<noteq> None"
    using assms unfolding index_inv_def by blast+
  have "j < length (classes s @ [oc]) \<and> iri ((classes s @ [oc]) ! j) = k"
    if "((iri_to_index s)(iri oc \<mapsto> length (classes s))) k = Some j" for k j
  proof (cases "k = iri oc")
    case True
    then have "j = length (classes s)" using that by simp
    then show ?thesis using True by simp
  next
    case False
    then have "iri_to_index s k = Some j" using that by simp
    from 1[OF this] show ?thesis by (simp add: nth_append)
  qed
  moreover have "((iri_to_index s)(iri oc \<mapsto> length (classes s))) (iri c) \<noteq> None"
    if "c \<in> set (classes s @ [oc])" for c
    using that 2 by auto
  ultimately show ?thesis
    unfolding index_inv_def by (simp add: index_class_frame)
qed

lemma index_class_no_parents:
  assumes "no_parents s" and "parent_class_of oc = []"
  shows "no_parents (index_class s oc)"
  using assms unfolding no_parents_def by (auto simp add: index_class_frame)

lemma index_class_label_entries:
  assumes "(k, v) \<in> set (label_to_index (index_class s oc))" and "x \<in> set v"
  shows "(\<exists>v0. (k, v0) \<in> set (label_to_index s) \<and> x \<in> set v0) \<or>
         (x = length (classes s) \<and> label oc = Some k)"
  using assms dict_append_set[of k v "label_to_index s" _ "length (classes s)" x]
  by (auto simp add: index_class_def Let_def foldl_index_alt_label_frame
      split: option.splits if_splits)

lemma index_class_alt_entries:
  assumes "(k, v) \<in> set (alt_label_to_index (index_class s oc))" and "x \<in> set v"
  shows "(\<exists>v0. (k, v0) \<in> set (alt_label_to_index s) \<and> x \<in> set v0) \<or>
         (x = length (classes s) \<and> Some k \<in> set (alternative_labels oc))"
  using foldl_index_alt_label_entries[OF assms[unfolded index_class_def Let_def]]
  by (auto split: option.splits if_splits)

lemma index_class_label_inv:
  assumes "label_inv s"
  shows "label_inv (index_class s oc)"
proof -
  have 1: "x < length (classes (index_class s oc)) \<and>
           label (classes (index_class s oc) ! x) = Some k"
    if a: "(k, v) \<in> set (label_to_index (index_class s oc))" "x \<in> set v" for k v x
    using index_class_label_entries[OF a] assms
    unfolding label_inv_def by (auto simp add: index_class_frame nth_append)
  have 2: "x < length (classes (index_class s oc)) \<and>
        Some k \<in> set (alternative_labels (classes (index_class s oc) ! x))"
    if a: "(k, v) \<in> set (alt_label_to_index (index_class s oc))" "x \<in> set v" for k v x
    using index_class_alt_entries[OF a] assms
    unfolding label_inv_def by (auto simp add: index_class_frame nth_append)
  show ?thesis unfolding label_inv_def using 1 2 by blast
qed

lemma parse_owl_class_shape:
  "parse_owl_class s n = s \<or>
   (\<exists>ts. parse_owl_class s n = s\<lparr>triples := ts\<rparr>) \<or>
   (\<exists>ts oc. parent_class_of oc = [] \<and> parse_owl_class s n = index_class (s\<lparr>triples := ts\<rparr>) oc)"
proof (cases "attrib_get n (get_ns_tag ''rdf'' ''about'')")
  case None
  then show ?thesis by (simp add: parse_owl_class_def)
next
  case (Some i)
  let ?st = "foldl parse_child (OWLClass_new i, triples s) (getchildren n)"
  have "parent_class_of (fst ?st) = []"
    using foldl_parse_child_keeps[of "(OWLClass_new i, triples s)" "getchildren n"]
    by (simp add: OWLClass_new_def)
  then show ?thesis using Some
    by (auto simp add: parse_owl_class_def Let_def)
qed

lemma triples_update_inv:
  "index_inv (s\<lparr>triples := ts\<rparr>) = index_inv s"
  "label_inv (s\<lparr>triples := ts\<rparr>) = label_inv s"
  "no_parents (s\<lparr>triples := ts\<rparr>) = no_parents s"
  by (simp_all add: index_inv_def label_inv_def no_parents_def)

lemma parse_owl_class_inv:
  assumes "index_inv s \<and> label_inv s \<and> no_parents s"
  shows "index_inv (parse_owl_class s n) \<and> label_inv (parse_owl_class s n) \<and>
         no_parents (parse_owl_class s n) \<and>
         class_edges (parse_owl_class s n) = class_edges s \<and>
         prefix_cache (parse_owl_class s n) = prefix_cache s \<and>
         warnings (parse_owl_class s n) = warnings s"
  using parse_owl_class_shape[of s n] assms
    index_class_index_inv index_class_label_inv index_class_no_parents
  by (auto simp add: triples_update_inv index_class_frame)

lemma parse_ontology_child_frame:
  "classes (parse_ontology_child s a) = classes s \<and>
   iri_to_index (parse_ontology_child s a) = iri_to_index s \<and>
   label_to_index (parse_ontology_child s a) = label_to_index s \<and>
   alt_label_to_index (parse_ontology_child s a) = alt_label_to_index s \<and>
   class_edges (parse_ontology_child s a) = class_edges s \<and>
   prefix_cache (parse_ontology_child s a) = prefix_cache s \<and>
   warnings (parse_ontology_child s a) = warnings s"
  by (simp add: parse_ontology_child_def)

lemma foldl_parse_ontology_child_frame:
  "classes (foldl parse_ontology_child s cs) = classes s \<and>
   iri_to_index (foldl parse_ontology_child s cs) = iri_to_index s \<and>
   label_to_index (foldl parse_ontology_child s cs) = label_to_index s \<and>
   alt_label_to_index (foldl parse_ontology_child s cs) = alt_label_to_index s \<and>
   class_edges (foldl parse_ontology_child s cs) = class_edges s \<and>
   prefix_cache (foldl parse_ontology_child s cs) = prefix_cache s \<and>
   warnings (foldl parse_ontology_child s cs) = warnings s"
  by (induction cs arbitrary: s) (simp_all add: parse_ontology_child_frame)

lemma parse_owl_ontology_frame:
  "classes (parse_owl_ontology s n) = classes s \<and>
   iri_to_index (parse_owl_ontology s n) = iri_to_index s \<and>
   label_to_index (parse_owl_ontology s n) = label_to_index s \<and>
   alt_label_to_index (parse_owl_ontology s n) = alt_label_to_index s \<and>
   class_edges (parse_owl_ontology s n) = class_edges s \<and>
   prefix_cache (parse_owl_ontology s n) = prefix_cache s \<and>
   warnings (parse_owl_ontology s n) = warnings s"
  unfolding parse_owl_ontology_def by (rule foldl_parse_ontology_child_frame)

lemma parse_owl_ontology_inv:
  assumes "index_inv s \<and> label_inv s \<and> no_parents s"
  shows "index_inv (parse_owl_ontology s n) \<and> label_inv (parse_owl_ontology s n) \<and>
         no_parents (parse_owl_ontology s n) \<and>
         class_edges (parse_owl_ontology s n) = class_edges s \<and>
         prefix_cache (parse_owl_ontology s n) = prefix_cache s \<and>
         warnings (parse_owl_ontology s n) = warnings s"
  using assms
  by (simp add: index_inv_def label_inv_def no_parents_def parse_owl_ontology_frame)

lemma parse_node_inv:
  assumes "index_inv s \<and> label_inv s \<and> no_parents s"
  shows "index_inv (parse_node s n) \<and> label_inv (parse_node s n) \<and>
         no_parents (parse_node s n) \<and>
         class_edges (parse_node s n) = class_edges s \<and>
         prefix_cache (parse_node s n) = prefix_cache s \<and>
         warnings (parse_node s n) = warnings s"
  using parse_owl_class_inv[OF assms, of n] parse_owl_ontology_inv[OF assms, of n] assms
  by (simp add: parse_node_def)

lemma foldl_parse_node_inv:
  assumes "index_inv s \<and> label_inv s \<and> no_parents s"
  shows "index_inv (foldl parse_node s ns) \<and> label_inv (foldl parse_node s ns) \<and>
         no_parents (foldl parse_node s ns) \<and>
         class_edges (foldl parse_node s ns) = class_edges s \<and>
         prefix_cache (foldl parse_node s ns) = prefix_cache s \<and>
         warnings (foldl parse_node s ns) = warnings s"
  using assms
proof (induction ns arbitrary: s)
  case Nil
  then show ?case by simp
next
  case (Cons n ns)
  from parse_node_inv[OF Cons.prems, of n] Cons.IH[of "parse_node s n"]
  show ?case by simp
qed

lemma fresh_inv: "fresh s \<Longrightarrow> index_inv s \<and> label_inv s \<and> no_parents s"
  by (simp add: fresh_def index_inv_def label_inv_def no_parents_def)

subsection \<open>The pass that builds the class edges\<close>

lemma edge_rel_refl: "edge_rel s [] s"
  by (simp add: edge_rel_def derived_def dangling_def)

lemma derived_cong: "iri_to_index s' = iri_to_index s \<Longrightarrow> derived s' ps j = derived s ps j"
  by (simp add: derived_def)

lemma dangling_cong: "iri_to_index s' = iri_to_index s \<Longrightarrow> dangling s' ps = dangling s ps"
  by (simp add: dangling_def)

lemma derived_append: "derived s (ps @ qs) j = derived s ps j @ derived s qs j"
  by (simp add: derived_def)

lemma dangling_append: "dangling s (ps @ qs) = dangling s ps @ dangling s qs"
  by (simp add: dangling_def)

lemma edge_rel_trans:
  assumes "edge_rel s ps s'" and "edge_rel s' qs s''"
  shows "edge_rel s (ps @ qs) s''"
proof -
  have i: "iri_to_index s' = iri_to_index s" and l: "length (classes s') = length (classes s)"
    using assms(1) by (simp_all add: edge_rel_def)
  have p: "parent_class_of (classes s'' ! j) =
           parent_class_of (classes s ! j) @ derived s (ps @ qs) j"
    if "j < length (classes s)" for j
    using that assms l by (simp add: edge_rel_def derived_append derived_cong[OF i])
  show ?thesis
    using assms p unfolding edge_rel_def
    by (simp add: dangling_append dangling_cong[OF i])
qed

lemma map_static_update:
  assumes "j < length cs"
  shows "map static (cs[j := (cs ! j)\<lparr>parent_class_of := x\<rparr>]) = map static cs"
  using assms by (simp add: list_eq_iff_nth_eq nth_list_update static_def)

lemma add_edge_rel:
  assumes ok: "\<forall>k j. iri_to_index s k = Some j \<longrightarrow> j < length (classes s)"
  shows "\<exists>s'. add_edge c s p = Inr s' \<and> edge_rel s [(c, p)] s'"
proof (cases "p = OWL_THING")
  case True
  then show ?thesis by (simp add: add_edge_def edge_rel_def derived_def dangling_def)
next
  case False
  show ?thesis
  proof (cases "iri_to_index s (normalize_iri p)")
    case None
    then show ?thesis using False
      by (simp add: add_edge_def Let_def contains_def edge_rel_def derived_def dangling_def)
  next
    case (Some j)
    then have j: "j < length (classes s)" using ok by blast
    let ?s' = "s\<lparr>class_edges := (class_edges s)(p \<mapsto>
                   (case class_edges s p of Some es \<Rightarrow> es | None \<Rightarrow> []) @ [c]),
                 classes := (classes s)[j := (classes s ! j)\<lparr>parent_class_of :=
                    parent_class_of (classes s ! j) @ [c]\<rparr>]\<rparr>"
    have r: "add_edge c s p = Inr ?s'"
      using False Some j
      by (simp add: add_edge_def Let_def contains_def getitem_str_def py_index_def)
    have "edge_rel s [(c, p)] ?s'"
      using False Some j
      by (simp add: edge_rel_def derived_def dangling_def map_static_update nth_list_update)
    then show ?thesis using r by blast
  qed
qed

lemma edge_rel_index_ok:
  assumes "edge_rel s ps s'"
    and "\<forall>k j. iri_to_index s k = Some j \<longrightarrow> j < length (classes s)"
  shows "\<forall>k j. iri_to_index s' k = Some j \<longrightarrow> j < length (classes s')"
  using assms by (simp add: edge_rel_def)

lemma add_edges_rel:
  assumes "\<forall>k j. iri_to_index s k = Some j \<longrightarrow> j < length (classes s)"
  shows "\<exists>s'. add_edges c s ps = Inr s' \<and> edge_rel s (map (Pair c) ps) s'"
  using assms
proof (induction ps arbitrary: s)
  case Nil
  then show ?case by (simp add: edge_rel_refl)
next
  case (Cons p ps)
  obtain s1 where 1: "add_edge c s p = Inr s1" "edge_rel s [(c, p)] s1"
    using add_edge_rel[OF Cons.prems] by blast
  obtain s2 where 2: "add_edges c s1 ps = Inr s2" "edge_rel s1 (map (Pair c) ps) s2"
    using Cons.IH[OF edge_rel_index_ok[OF 1(2) Cons.prems]] by blast
  have "edge_rel s ([(c, p)] @ map (Pair c) ps) s2"
    by (rule edge_rel_trans[OF 1(2) 2(2)])
  then show ?case using 1 2 by simp
qed

lemma static_fields:
  assumes "map static cs' = map static cs" and "i < length cs"
  shows "iri (cs' ! i) = iri (cs ! i) \<and> sub_class_of (cs' ! i) = sub_class_of (cs ! i) \<and>
         label (cs' ! i) = label (cs ! i) \<and>
         alternative_labels (cs' ! i) = alternative_labels (cs ! i)"
proof -
  have l: "length cs' = length cs" using assms(1) by (metis length_map)
  have "static (cs' ! i) = static (cs ! i)"
    using assms l by (metis nth_map)
  then have "iri (static (cs' ! i)) = iri (static (cs ! i)) \<and>
     sub_class_of (static (cs' ! i)) = sub_class_of (static (cs ! i)) \<and>
     label (static (cs' ! i)) = label (static (cs ! i)) \<and>
     alternative_labels (static (cs' ! i)) = alternative_labels (static (cs ! i))"
    by simp
  then show ?thesis by (simp add: static_def)
qed

lemma edge_pairs_Cons:
  "edge_pairs (c # cs) = map (Pair (iri c)) (sub_class_of c) @ edge_pairs cs"
  by (simp add: edge_pairs_def)

lemma edge_pairs_static:
  assumes "map static cs' = map static cs"
  shows "edge_pairs cs' = edge_pairs cs"
proof -
  have l: "length cs' = length cs" using assms by (metis length_map)
  have "map (\<lambda>c. map (\<lambda>p. (iri c, p)) (sub_class_of c)) cs' =
        map (\<lambda>c. map (\<lambda>p. (iri c, p)) (sub_class_of c)) cs"
    using l static_fields[OF assms] by (simp add: list_eq_iff_nth_eq)
  then show ?thesis by (simp add: edge_pairs_def)
qed

lemma build_class_edges_rel:
  assumes "\<forall>k j. iri_to_index s k = Some j \<longrightarrow> j < length (classes s)"
    and "\<forall>i \<in> set ixs. i < length (classes s)"
  shows "\<exists>s'. build_class_edges s ixs = Inr s' \<and>
              edge_rel s (edge_pairs (map (\<lambda>i. classes s ! i) ixs)) s'"
  using assms
proof (induction ixs arbitrary: s)
  case Nil
  then show ?case by (simp add: edge_rel_refl edge_pairs_def)
next
  case (Cons i ixs)
  have i: "i < length (classes s)" using Cons.prems(2) by simp
  let ?c = "classes s ! i"
  obtain s1 where 1: "add_edges (iri ?c) s (sub_class_of ?c) = Inr s1"
    "edge_rel s (map (Pair (iri ?c)) (sub_class_of ?c)) s1"
    using add_edges_rel[OF Cons.prems(1)] by blast
  have st: "map static (classes s1) = map static (classes s)"
    and l: "length (classes s1) = length (classes s)"
    using 1(2) by (simp_all add: edge_rel_def)
  have "\<forall>i \<in> set ixs. i < length (classes s1)" using Cons.prems(2) l by simp
  from Cons.IH[OF edge_rel_index_ok[OF 1(2) Cons.prems(1)] this]
  obtain s2 where 2: "build_class_edges s1 ixs = Inr s2"
    "edge_rel s1 (edge_pairs (map (\<lambda>i. classes s1 ! i) ixs)) s2" by blast
  have "map static (map (\<lambda>i. classes s1 ! i) ixs) = map static (map (\<lambda>i. classes s ! i) ixs)"
  proof -
    have "static (classes s1 ! k) = static (classes s ! k)" if "k \<in> set ixs" for k
      using st l Cons.prems(2) that by (metis list.set_intros(2) nth_map)
    then show ?thesis by simp
  qed
  then have e: "edge_pairs (map (\<lambda>i. classes s1 ! i) ixs) = edge_pairs (map (\<lambda>i. classes s ! i) ixs)"
    by (rule edge_pairs_static)
  have "edge_rel s (map (Pair (iri ?c)) (sub_class_of ?c) @
                    edge_pairs (map (\<lambda>i. classes s ! i) ixs)) s2"
    using edge_rel_trans[OF 1(2) 2(2)] e by simp
  then show ?case using 1 2 i by (simp add: py_index_def edge_pairs_Cons)
qed

lemma edge_relD:
  assumes "edge_rel s ps s'"
  shows "length (classes s') = length (classes s)"
    and "map static (classes s') = map static (classes s)"
    and "iri_to_index s' = iri_to_index s"
    and "label_to_index s' = label_to_index s"
    and "alt_label_to_index s' = alt_label_to_index s"
    and "prefix_cache s' = prefix_cache s"
    and "class_edges s' OWL_THING = class_edges s OWL_THING"
    and "warnings s' = warnings s @ dangling s ps"
    and "\<And>j. j < length (classes s) \<Longrightarrow>
           parent_class_of (classes s' ! j) = parent_class_of (classes s ! j) @ derived s ps j"
  using assms unfolding edge_rel_def by blast+

lemma index_invI:
  assumes "\<And>k j. iri_to_index s k = Some j \<Longrightarrow> j < length (classes s) \<and> iri (classes s ! j) = k"
    and "\<And>c. c \<in> set (classes s) \<Longrightarrow> iri_to_index s (iri c) \<noteq> None"
  shows "index_inv s"
  unfolding index_inv_def using assms by simp

lemma index_invD:
  assumes "index_inv s"
  shows "\<And>k j. iri_to_index s k = Some j \<Longrightarrow> j < length (classes s)"
    and "\<And>k j. iri_to_index s k = Some j \<Longrightarrow> iri (classes s ! j) = k"
    and "\<And>c. c \<in> set (classes s) \<Longrightarrow> iri_to_index s (iri c) \<noteq> None"
  using assms unfolding index_inv_def by simp_all

lemma edge_rel_index_inv:
  assumes r: "edge_rel s ps s'" and inv: "index_inv s"
  shows "index_inv s'"
proof (rule index_invI)
  note st = edge_relD(2)[OF r] and l = edge_relD(1)[OF r] and i = edge_relD(3)[OF r]
  fix k j assume "iri_to_index s' k = Some j"
  then have "iri_to_index s k = Some j" using i by simp
  then have a: "j < length (classes s)" "iri (classes s ! j) = k"
    using index_invD(1,2)[OF inv] by simp_all
  from static_fields[OF st a(1)] have "iri (classes s' ! j) = iri (classes s ! j)" by simp
  then show "j < length (classes s') \<and> iri (classes s' ! j) = k" using a l by simp
next
  note st = edge_relD(2)[OF r] and l = edge_relD(1)[OF r] and i = edge_relD(3)[OF r]
  fix c assume "c \<in> set (classes s')"
  then obtain j where j: "j < length (classes s')" "c = classes s' ! j"
    by (auto simp add: in_set_conv_nth)
  have jl: "j < length (classes s)" using j l by simp
  from static_fields[OF st jl] have e: "iri c = iri (classes s ! j)" using j by simp
  have "classes s ! j \<in> set (classes s)" using jl by simp
  then have "iri_to_index s (iri (classes s ! j)) \<noteq> None"
    by (rule index_invD(3)[OF inv])
  then show "iri_to_index s' (iri c) \<noteq> None" using e i by simp
qed
lemma label_invI:
  assumes "\<And>k v x. (k, v) \<in> set (label_to_index s) \<Longrightarrow> x \<in> set v \<Longrightarrow>
        x < length (classes s) \<and> label (classes s ! x) = Some k"
    and "\<And>k v x. (k, v) \<in> set (alt_label_to_index s) \<Longrightarrow> x \<in> set v \<Longrightarrow>
        x < length (classes s) \<and> Some k \<in> set (alternative_labels (classes s ! x))"
  shows "label_inv s"
  unfolding label_inv_def using assms by simp

lemma label_invD:
  assumes "label_inv s"
  shows "\<And>k v x. (k, v) \<in> set (label_to_index s) \<Longrightarrow> x \<in> set v \<Longrightarrow>
        x < length (classes s) \<and> label (classes s ! x) = Some k"
    and "\<And>k v x. (k, v) \<in> set (alt_label_to_index s) \<Longrightarrow> x \<in> set v \<Longrightarrow>
        x < length (classes s) \<and> Some k \<in> set (alternative_labels (classes s ! x))"
  using assms unfolding label_inv_def by simp_all

lemma edge_rel_label_inv:
  assumes r: "edge_rel s ps s'" and inv: "label_inv s"
  shows "label_inv s'"
proof (rule label_invI)
  note st = edge_relD(2)[OF r] and l = edge_relD(1)[OF r]
  fix k v x assume "(k, v) \<in> set (label_to_index s')" "x \<in> set v"
  then have "(k, v) \<in> set (label_to_index s)" "x \<in> set v"
    using edge_relD(4)[OF r] by simp_all
  from label_invD(1)[OF inv this]
  have a: "x < length (classes s)" "label (classes s ! x) = Some k" by simp_all
  from static_fields[OF st a(1)] have "label (classes s' ! x) = label (classes s ! x)" by simp
  then show "x < length (classes s') \<and> label (classes s' ! x) = Some k" using a l by simp
next
  note st = edge_relD(2)[OF r] and l = edge_relD(1)[OF r]
  fix k v x assume "(k, v) \<in> set (alt_label_to_index s')" "x \<in> set v"
  then have "(k, v) \<in> set (alt_label_to_index s)" "x \<in> set v"
    using edge_relD(5)[OF r] by simp_all
  from label_invD(2)[OF inv this]
  have a: "x < length (classes s)" "Some k \<in> set (alternative_labels (classes s ! x))"
    by simp_all
  from static_fields[OF st a(1)]
  have "alternative_labels (classes s' ! x) = alternative_labels (classes s ! x)" by simp
  then show "x < length (classes s') \<and> Some k \<in> set (alternative_labels (classes s' ! x))"
    using a l by simp
qed

lemma parse_owl_tail:
  assumes "build_class_edges (foldl parse_node s0 (getchildren tree))
             [0..<length (classes (foldl parse_node s0 (getchildren tree)))] = Inr s2"
  shows "\<exists>s. parse_owl mt s0 tree = Inr s \<and> classes s = classes s2 \<and>
     iri_to_index s = iri_to_index s2 \<and> label_to_index s = label_to_index s2 \<and>
     alt_label_to_index s = alt_label_to_index s2 \<and> class_edges s = class_edges s2 \<and>
     warnings s = warnings s2 \<and> prefix_cache s = prefix_cache s2 \<and> triples s = triples s2 \<and>
     cached_triples s = triples s2 \<and>
     (mt \<longrightarrow> label_trie s = Some (Trie (filter (\<lambda>l. length l \<ge> MIN_PREFIX_LENGTH)
                (map fst (label_to_index s) @ map fst (alt_label_to_index s)))))"
  using assms by (cases mt) (simp_all add: parse_owl_def Let_def)

lemma edge_rel_fields:
  assumes "edge_rel s ps s2" and "classes s3 = classes s2" and "iri_to_index s3 = iri_to_index s2"
    and "label_to_index s3 = label_to_index s2" and "alt_label_to_index s3 = alt_label_to_index s2"
    and "class_edges s3 = class_edges s2" and "warnings s3 = warnings s2"
    and "prefix_cache s3 = prefix_cache s2" and "triples s3 = triples s2"
  shows "edge_rel s ps s3"
  using assms by (simp add: edge_rel_def)

lemma parse_owl_snapshot:
  assumes "fresh s0"
  shows "\<exists>s. parse_owl mt s0 tree = Inr s \<and> index_inv s \<and> label_inv s \<and>
     (\<forall>j<length (classes s).
        parent_class_of (classes s ! j) = derived s (edge_pairs (classes s)) j) \<and>
     class_edges s OWL_THING = None \<and>
     warnings s = warnings s0 @ dangling s (edge_pairs (classes s)) \<and>
     prefix_cache s = prefix_cache s0 \<and>
     (mt \<longrightarrow> label_trie s = Some (Trie (filter (\<lambda>l. length l \<ge> MIN_PREFIX_LENGTH)
                (map fst (label_to_index s) @ map fst (alt_label_to_index s)))))"
proof -
  define s1 where "s1 = foldl parse_node s0 (getchildren tree)"
  have inv1: "index_inv s1" "label_inv s1" "no_parents s1"
    and fr1: "class_edges s1 = class_edges s0" "prefix_cache s1 = prefix_cache s0"
      "warnings s1 = warnings s0"
    using foldl_parse_node_inv[OF fresh_inv[OF assms], of "getchildren tree"]
    unfolding s1_def by simp_all
  have ok: "\<forall>k j. iri_to_index s1 k = Some j \<longrightarrow> j < length (classes s1)"
    using index_invD(1)[OF inv1(1)] by simp
  have "\<forall>i \<in> set [0..<length (classes s1)]. i < length (classes s1)" by simp
  from build_class_edges_rel[OF ok this]
  obtain s2 where 2: "build_class_edges s1 [0..<length (classes s1)] = Inr s2"
    "edge_rel s1 (edge_pairs (classes s1)) s2"
    by (auto simp add: map_nth)
  from parse_owl_tail[OF 2(1)[unfolded s1_def], of mt]
  obtain s where p: "parse_owl mt s0 tree = Inr s" and f: "classes s = classes s2"
     "iri_to_index s = iri_to_index s2" "label_to_index s = label_to_index s2"
     "alt_label_to_index s = alt_label_to_index s2" "class_edges s = class_edges s2"
     "warnings s = warnings s2" "prefix_cache s = prefix_cache s2" "triples s = triples s2"
     and tr: "mt \<longrightarrow> label_trie s = Some (Trie (filter (\<lambda>l. length l \<ge> MIN_PREFIX_LENGTH)
                (map fst (label_to_index s) @ map fst (alt_label_to_index s))))"
    by blast
  have r: "edge_rel s1 (edge_pairs (classes s1)) s"
    by (rule edge_rel_fields[OF 2(2) f])
  note st = edge_relD(2)[OF r] and l = edge_relD(1)[OF r] and i = edge_relD(3)[OF r]
  have ep: "edge_pairs (classes s) = edge_pairs (classes s1)"
    by (rule edge_pairs_static[OF st])
  have par: "parent_class_of (classes s ! j) = derived s (edge_pairs (classes s)) j"
    if "j < length (classes s)" for j
  proof -
    have jl: "j < length (classes s1)" using that l by simp
    then have "classes s1 ! j \<in> set (classes s1)" by simp
    then have "parent_class_of (classes s1 ! j) = []"
      using inv1(3) unfolding no_parents_def by simp
    moreover note edge_relD(9)[OF r jl]
    ultimately show ?thesis using ep derived_cong[OF i] by simp
  qed
  have ce: "class_edges s OWL_THING = None"
    using edge_relD(7)[OF r] fr1(1) assms by (simp add: fresh_def)
  have w: "warnings s = warnings s0 @ dangling s (edge_pairs (classes s))"
    using edge_relD(8)[OF r] fr1(3) ep dangling_cong[OF i] by simp
  have pc: "prefix_cache s = prefix_cache s0" using edge_relD(6)[OF r] fr1(2) by simp
  have ii: "index_inv s" by (rule edge_rel_index_inv[OF r inv1(1)])
  have li: "label_inv s" by (rule edge_rel_label_inv[OF r inv1(2)])
  show ?thesis
    apply (rule exI[of _ s])
    using p ii li par ce w pc tr by simp
qed

subsection \<open>Snapshots\<close>

lemma getitem_str_found:
  assumes inv: "index_inv s" and d: "distinct (map iri (classes s))"
    and E: "E \<in> set (classes s)" and n: "normalize_iri x = iri E"
  shows "getitem_str s x = Inr (Some E)"
proof -
  obtain j where j: "iri_to_index s (iri E) = Some j"
    using index_invD(3)[OF inv E] by auto
  have jl: "j < length (classes s)" and ji: "iri (classes s ! j) = iri E"
    using index_invD(1,2)[OF inv j] by simp_all
  obtain i where i: "i < length (classes s)" "classes s ! i = E"
    using E by (auto simp add: in_set_conv_nth)
  have "map iri (classes s) ! j = map iri (classes s) ! i" using jl i ji by simp
  moreover have "j < length (map iri (classes s))" "i < length (map iri (classes s))"
    using jl i(1) by simp_all
  ultimately have "j = i" using nth_eq_iff_index_eq[OF d] by blast
  then show ?thesis using j jl i n by (simp add: getitem_str_def py_index_def)
qed

lemma getitem_str_SomeD:
  assumes "getitem_str s x = Inr (Some A)"
  shows "\<exists>j. iri_to_index s (normalize_iri x) = Some j \<and> j < length (classes s) \<and>
             classes s ! j = A"
  using assms
  by (auto simp add: getitem_str_def py_index_def split: option.splits if_splits)

lemma edge_pairs_mem:
  "B \<in> set cs \<Longrightarrow> p \<in> set (sub_class_of B) \<Longrightarrow> (iri B, p) \<in> set (edge_pairs cs)"
  by (auto simp add: edge_pairs_def)


lemma derived_mem:
  "(c, p) \<in> set ps \<Longrightarrow> p \<noteq> OWL_THING \<Longrightarrow> iri_to_index s (normalize_iri p) = Some j \<Longrightarrow>
   c \<in> set (derived s ps j)"
  by (force simp add: derived_def)


lemma dangling_mem:
  "(c, p) \<in> set ps \<Longrightarrow> p \<noteq> OWL_THING \<Longrightarrow> iri_to_index s (normalize_iri p) = None \<Longrightarrow>
   p \<in> set (dangling s ps)"
  by (force simp add: dangling_def)

lemma fresh_SOLI_init: "fresh SOLI_init"
  by (simp add: fresh_def SOLI_init_def)

text \<open>
  C1, as the code has it. In a loaded snapshot whose entities have pairwise distinct
  IRIs, let \<open>E\<close> be an entity. If normalisation leaves \<open>E.iri\<close> unchanged, lookup of
  \<open>E.iri\<close> returns \<open>E\<close>. If \<open>E.iri\<close> is the canonical base URL followed by a token
  without \<^verbatim>\<open>/\<close>, then lookup of \<open>E.iri\<close>, of the \<^verbatim>\<open>lmss:\<close> form and of the legacy
  \<^verbatim>\<open>http://lmss.sali.org/\<close> form of the token returns \<open>E\<close>, and so does lookup of the
  \<^verbatim>\<open>soli:\<close> form when the token does not itself start with \<^verbatim>\<open>lmss:\<close>.
\<close>

theorem lookup_round_trip:
  assumes "fresh s0" and "parse_owl mt s0 tree = Inr s"
    and "E \<in> set (classes s)" and "distinct (map iri (classes s))"
  shows "(normalize_iri (iri E) = iri E \<longrightarrow> getitem_str s (iri E) = Inr (Some E)) \<and>
         (\<forall>t. iri E = SOLI_BASE @ t \<and> CHR ''/'' \<notin> set t \<longrightarrow>
            getitem_str s (iri E) = Inr (Some E) \<and>
            getitem_str s (''lmss:'' @ t) = Inr (Some E) \<and>
            getitem_str s (LMSS_BASE @ t) = Inr (Some E) \<and>
            (\<not> prefix ''lmss:'' t \<longrightarrow> getitem_str s (''soli:'' @ t) = Inr (Some E)))"
proof -
  have inv: "index_inv s" using parse_owl_snapshot[OF assms(1), of mt tree] assms(2) by auto
  note found = getitem_str_found[OF inv assms(4) assms(3)]
  have 1: "normalize_iri (iri E) = iri E \<longrightarrow> getitem_str s (iri E) = Inr (Some E)"
    using found by blast
  have 2: "getitem_str s (iri E) = Inr (Some E) \<and>
            getitem_str s (''lmss:'' @ t) = Inr (Some E) \<and>
            getitem_str s (LMSS_BASE @ t) = Inr (Some E) \<and>
            (\<not> prefix ''lmss:'' t \<longrightarrow> getitem_str s (''soli:'' @ t) = Inr (Some E))"
    if t: "iri E = SOLI_BASE @ t" "CHR ''/'' \<notin> set t" for t
  proof -
    have "normalize_iri (iri E) = iri E"
      using t(1) by (simp add: normalize_iri_canonical)
    then show ?thesis
      using found[of "iri E"] found[of "''lmss:'' @ t"] found[of "LMSS_BASE @ t"]
        found[of "''soli:'' @ t"] normalize_iri_lmss[OF t(2)] normalize_iri_legacy_url[OF t(2)]
        normalize_iri_soli[OF t(2)] t(1)
      by simp
  qed
  show ?thesis using 1 2 by blast
qed

lemma doc_family_lookup_A:
  "(case SOLI_new True doc_family of
      Inr s \<Rightarrow> getitem_str s ''https://soli.openlegalstandard.org/A'' | Inl e \<Rightarrow> Inl e) =
   Inr (Some ent_A)"
  by (simp add: eval_defs doc_family_def ent_A_def)

theorem lookup_round_trip_witness:
  "(case SOLI_new True doc_family of
      Inr s \<Rightarrow> [getitem_str s ''https://soli.openlegalstandard.org/A'',
                getitem_str s ''lmss:A'',
                getitem_str s ''http://lmss.sali.org/A'',
                getitem_str s ''soli:A'']
    | Inl e \<Rightarrow> []) =
   [Inr (Some ent_A), Inr (Some ent_A), Inr (Some ent_A), Inr (Some ent_A)]"
proof -
  obtain s where p: "parse_owl True SOLI_init doc_family = Inr s"
    using parse_owl_snapshot[OF fresh_SOLI_init] by blast
  have cs: "classes s = [ent_A, ent_B]"
    using doc_family_classes p by (simp add: SOLI_new_def)
  have E: "ent_A \<in> set (classes s)" by (simp add: cs)
  have d: "distinct (map iri (classes s))"
    by (simp add: cs ent_A_def ent_B_def OWLClass_new_def)
  have i: "iri ent_A = SOLI_BASE @ ''A''"
    by (simp add: ent_A_def OWLClass_new_def SOLI_BASE_def)
  have "getitem_str s (iri ent_A) = Inr (Some ent_A) \<and>
        getitem_str s (''lmss:'' @ ''A'') = Inr (Some ent_A) \<and>
        getitem_str s (LMSS_BASE @ ''A'') = Inr (Some ent_A) \<and>
        getitem_str s (''soli:'' @ ''A'') = Inr (Some ent_A)"
    using lookup_round_trip[OF fresh_SOLI_init p E d] i by simp
  then show ?thesis
    using p by (simp add: SOLI_new_def i LMSS_BASE_def SOLI_BASE_def)
qed

text \<open>
  C1 as stated fails. In the snapshot of \<^const>\<open>doc_bare\<close> the first entity has the IRI
  \<^verbatim>\<open>abc\<close>, and lookup of \<^verbatim>\<open>abc\<close> finds nothing: the lookup normalises its argument,
  the index holds the IRI as declared. In the snapshot of \<^const>\<open>doc_dup\<close> two entities
  share an IRI, and lookup of it returns the second, not the first.
\<close>

theorem lookup_round_trip_counterexample:
  "(case SOLI_new True doc_bare of
      Inr s \<Rightarrow> (map iri (classes s), getitem_str s ''abc'') | Inl e \<Rightarrow> ([], Inl e)) =
     ([''abc'', ''https://soli.openlegalstandard.org/B''], Inr None) \<and>
   (case SOLI_new True doc_dup of
      Inr s \<Rightarrow> (map label (classes s),
                case getitem_str s ''https://soli.openlegalstandard.org/D'' of
                  Inr (Some c) \<Rightarrow> label c | _ \<Rightarrow> None)
    | Inl e \<Rightarrow> ([], None)) =
     ([Some ''First'', Some ''Second''], Some ''Second'')"
  by (simp add: eval_defs doc_bare_def doc_dup_def)

text \<open>
  C2, as the code has it. A parse from fresh structures completes. In the snapshot,
  for all entities \<open>A\<close> and \<open>B\<close>: if \<open>B.sub_class_of\<close> contains \<open>A.iri\<close>, \<open>A.iri\<close> is not
  the root sentinel, and lookup of \<open>A.iri\<close> returns \<open>A\<close>, then \<open>A.parent_class_of\<close>
  contains \<open>B.iri\<close>. A declared parent other than the sentinel that is absent from the
  graph is logged as a warning.
\<close>

theorem parent_class_of_inverse:
  assumes "fresh s0"
  shows "\<exists>s. parse_owl mt s0 tree = Inr s \<and>
     (\<forall>A B. B \<in> set (classes s) \<and> iri A \<in> set (sub_class_of B) \<and> iri A \<noteq> OWL_THING \<and>
            getitem_str s (iri A) = Inr (Some A) \<longrightarrow> iri B \<in> set (parent_class_of A)) \<and>
     (\<forall>B p. B \<in> set (classes s) \<and> p \<in> set (sub_class_of B) \<and> p \<noteq> OWL_THING \<and>
            \<not> contains s p \<longrightarrow> p \<in> set (warnings s))"
proof -
  obtain s where p: "parse_owl mt s0 tree = Inr s"
    and par: "\<And>j. j < length (classes s) \<Longrightarrow>
        parent_class_of (classes s ! j) = derived s (edge_pairs (classes s)) j"
    and w: "warnings s = warnings s0 @ dangling s (edge_pairs (classes s))"
    using parse_owl_snapshot[OF assms, of mt tree] by blast
  have 1: "iri B \<in> set (parent_class_of A)"
    if a: "B \<in> set (classes s)" "iri A \<in> set (sub_class_of B)" "iri A \<noteq> OWL_THING"
      "getitem_str s (iri A) = Inr (Some A)" for A B
  proof -
    obtain j where j: "iri_to_index s (normalize_iri (iri A)) = Some j"
      "j < length (classes s)" "classes s ! j = A"
      using getitem_str_SomeD[OF a(4)] by blast
    have "iri B \<in> set (derived s (edge_pairs (classes s)) j)"
      by (rule derived_mem[OF edge_pairs_mem[OF a(1,2)] a(3) j(1)])
    then show ?thesis using par[OF j(2)] j(3) by simp
  qed
  have 2: "p \<in> set (warnings s)"
    if "B \<in> set (classes s)" "p \<in> set (sub_class_of B)" "p \<noteq> OWL_THING" "\<not> contains s p"
    for B p
  proof -
    have "iri_to_index s (normalize_iri p) = None" using that(4) by (simp add: contains_def)
    from dangling_mem[OF edge_pairs_mem[OF that(1,2)] that(3) this]
    show ?thesis using w by simp
  qed
  show ?thesis using p 1 2 by blast
qed

lemma doc_family_Zed:
  "(case SOLI_new True doc_family of Inr s \<Rightarrow> contains s ''soli:Zed'' | Inl e \<Rightarrow> True) = False"
  by (simp add: eval_defs doc_family_def)

theorem parent_class_of_inverse_witness:
  "(case SOLI_new True doc_family of
      Inr s \<Rightarrow> ''https://soli.openlegalstandard.org/B'' \<in> set (parent_class_of ent_A) \<and>
               ''soli:Zed'' \<in> set (warnings s)
    | Inl e \<Rightarrow> False)"
proof -
  obtain s where p: "parse_owl True SOLI_init doc_family = Inr s"
    and 1: "\<And>A B. B \<in> set (classes s) \<Longrightarrow> iri A \<in> set (sub_class_of B) \<Longrightarrow>
              iri A \<noteq> OWL_THING \<Longrightarrow> getitem_str s (iri A) = Inr (Some A) \<Longrightarrow>
              iri B \<in> set (parent_class_of A)"
    and 2: "\<And>B p. B \<in> set (classes s) \<Longrightarrow> p \<in> set (sub_class_of B) \<Longrightarrow> p \<noteq> OWL_THING \<Longrightarrow>
              \<not> contains s p \<Longrightarrow> p \<in> set (warnings s)"
    using parent_class_of_inverse[OF fresh_SOLI_init, of True doc_family] by blast
  have cs: "classes s = [ent_A, ent_B]"
    using doc_family_classes p by (simp add: SOLI_new_def)
  have B: "ent_B \<in> set (classes s)" by (simp add: cs)
  have l: "getitem_str s (iri ent_A) = Inr (Some ent_A)"
    using doc_family_lookup_A p by (simp add: SOLI_new_def ent_A_def OWLClass_new_def)
  have z: "\<not> contains s ''soli:Zed''"
    using doc_family_Zed p by (simp add: SOLI_new_def)
  have "iri ent_B \<in> set (parent_class_of ent_A)"
    by (rule 1[OF B _ _ l]) (simp_all add: ent_A_def ent_B_def OWLClass_new_def OWL_THING_def)
  moreover have "''soli:Zed'' \<in> set (warnings s)"
    by (rule 2[OF B _ _ z]) (simp_all add: ent_B_def OWLClass_new_def OWL_THING_def)
  ultimately show ?thesis
    using p by (simp add: SOLI_new_def ent_B_def OWLClass_new_def)
qed

text \<open>
  C2 as stated fails. In the snapshot of \<^const>\<open>doc_bare\<close> the second entity declares the
  parent \<^verbatim>\<open>abc\<close>, which is the IRI of the first entity and not the root sentinel, and
  the first entity has no child: the parent is looked up after normalisation and is
  not found.
\<close>

theorem parent_class_of_inverse_counterexample:
  "(case SOLI_new True doc_bare of
      Inr s \<Rightarrow> map (\<lambda>c. (iri c, sub_class_of c, parent_class_of c)) (classes s)
    | Inl e \<Rightarrow> []) =
   [(''abc'', [], []), (''https://soli.openlegalstandard.org/B'', [''abc''], [])]"
  by (simp add: eval_defs doc_bare_def)











subsection \<open>Traversal\<close>

lemma extend_all_map:
  assumes "\<And>x. x \<in> set xs \<Longrightarrow> f x = Inr (g x)"
  shows "extend_all (map f xs) = Inr (concat (map g xs))"
  using assms by (induction xs) simp_all

lemma get_parents_bounded:
  assumes ok0: "\<forall>k j. iri_to_index s k = Some j \<longrightarrow> j < length (classes s)"
  shows "n < fuel \<Longrightarrow>
         \<exists>r. get_parents fuel s i (int n) = Inr r \<and> (\<forall>e \<in> set r. \<exists>k\<le>n. hop_chain s i k e)"
proof (induction n arbitrary: fuel i)
  have ok: "\<And>k j. iri_to_index s k = Some j \<Longrightarrow> j < length (classes s)"
    using ok0 by blast
  case 0
  then obtain f where f: "fuel = Suc f" by (cases fuel) auto
  show ?case
  proof (cases "iri_to_index s (normalize_iri i)")
    case None
    then show ?thesis by (simp add: f)
  next
    case (Some j)
    have jl: "j < length (classes s)" by (rule ok[OF Some])
    have "hop_chain s i 0 (classes s ! j)" by (rule hop_chain.here[OF Some jl])
    then show ?thesis using Some jl by (simp add: f py_index_def)
  qed
next
  have ok: "\<And>k j. iri_to_index s k = Some j \<Longrightarrow> j < length (classes s)"
    using ok0 by blast
  case (Suc m)
  then obtain f where f: "fuel = Suc f" and mf: "m < f" by (cases fuel) auto
  show ?case
  proof (cases "iri_to_index s (normalize_iri i)")
    case None
    then show ?thesis by (simp add: f)
  next
    case (Some j)
    have jl: "j < length (classes s)" by (rule ok[OF Some])
    let ?c = "classes s ! j"
    have "\<forall>p. \<exists>r. get_parents f s p (int m) = Inr r \<and> (\<forall>e \<in> set r. \<exists>k\<le>m. hop_chain s p k e)"
      using Suc.IH[OF mf] by blast
    then obtain g where g: "\<And>p. get_parents f s p (int m) = Inr (g p)"
      "\<And>p e. e \<in> set (g p) \<Longrightarrow> \<exists>k\<le>m. hop_chain s p k e"
      by metis
    have e: "extend_all (map (\<lambda>p. get_parents f s p (int (Suc m) - 1)) (sub_class_of ?c)) =
             Inr (concat (map g (sub_class_of ?c)))"
      by (rule extend_all_map) (simp add: g(1))
    have r: "get_parents fuel s i (int (Suc m)) = Inr (?c # concat (map g (sub_class_of ?c)))"
      using Some jl e by (simp add: f py_index_def del: of_nat_Suc)
    have "\<exists>k\<le>Suc m. hop_chain s i k x"
      if x: "x \<in> set (?c # concat (map g (sub_class_of ?c)))" for x
    proof (cases "x = ?c")
      case True
      have "hop_chain s i 0 ?c" by (rule hop_chain.here[OF Some jl])
      then show ?thesis using True by blast
    next
      case False
      then obtain p where p: "p \<in> set (sub_class_of ?c)" "x \<in> set (g p)" using x by auto
      obtain k where k: "k \<le> m" "hop_chain s p k x" using g(2)[OF p(2)] by blast
      have "hop_chain s i (Suc k) x" by (rule hop_chain.hop[OF Some jl p(1) k(2)])
      then show ?thesis using k(1) by (meson Suc_le_mono)
    qed
    then show ?thesis using r by blast
  qed
qed

text \<open>
  C4, as the code has it. In a loaded snapshot, for every IRI string and every
  \<^verbatim>\<open>max_depth\<close> \<open>N \<ge> 0\<close>, \<^verbatim>\<open>get_parents\<close> returns a list once the depth of calls it is
  allowed exceeds \<open>N\<close>, and every entity of the list is reached from the start by a
  chain of at most \<open>N\<close> \<^verbatim>\<open>sub_class_of\<close> steps. At \<open>N = 0\<close> the list is just the
  entity, and for an IRI that does not resolve it is empty.
\<close>

theorem get_parents_within_depth:
  assumes "fresh s0" and "parse_owl mt s0 tree = Inr s" and "0 \<le> N" and "nat N < fuel"
  shows "\<exists>r. get_parents fuel s i N = Inr r \<and>
           (\<forall>e \<in> set r. \<exists>k\<le>nat N. hop_chain s i k e) \<and>
           (iri_to_index s (normalize_iri i) = None \<longrightarrow> r = []) \<and>
           (N = 0 \<longrightarrow> (\<forall>j. iri_to_index s (normalize_iri i) = Some j \<longrightarrow> r = [classes s ! j]))"
proof -
  have inv: "index_inv s" using parse_owl_snapshot[OF assms(1), of mt tree] assms(2) by auto
  note ok = index_invD(1)[OF inv]
  have ok0: "\<forall>k j. iri_to_index s k = Some j \<longrightarrow> j < length (classes s)"
    using ok by blast
  obtain r where r: "get_parents fuel s i (int (nat N)) = Inr r"
    "\<forall>e \<in> set r. \<exists>k\<le>nat N. hop_chain s i k e"
    using get_parents_bounded[OF ok0 assms(4), where i = i] by blast
  have N: "int (nat N) = N" using assms(3) by simp
  obtain f where f: "fuel = Suc f" using assms(4) by (cases fuel) auto
  have 1: "r = []" if "iri_to_index s (normalize_iri i) = None"
    using r(1) that by (simp add: f)
  have 2: "r = [classes s ! j]" if "N = 0" "iri_to_index s (normalize_iri i) = Some j" for j
    using r(1) that ok[OF that(2)] by (simp add: f py_index_def)
  have g: "get_parents fuel s i N = Inr r" using r(1) N by simp
  show ?thesis
    apply (rule exI[of _ r])
    using g r(2) 1 2 by simp
qed

lemma doc_family_get_parents:
  "(case SOLI_new True doc_family of
      Inr s \<Rightarrow> get_parents 2 s ''https://soli.openlegalstandard.org/B'' 1 | Inl e \<Rightarrow> Inl e) =
   Inr [ent_B, ent_A]"
  by (simp add: eval_defs doc_family_def ent_A_def ent_B_def eval_nat_numeral)

theorem get_parents_within_depth_witness:
  "(case SOLI_new True doc_family of
      Inr s \<Rightarrow> get_parents 2 s ''https://soli.openlegalstandard.org/B'' 1 = Inr [ent_B, ent_A] \<and>
               (\<exists>k\<le>1. hop_chain s ''https://soli.openlegalstandard.org/B'' k ent_A)
    | Inl e \<Rightarrow> False)"
proof -
  obtain s where p: "parse_owl True SOLI_init doc_family = Inr s"
    using parse_owl_snapshot[OF fresh_SOLI_init] by blast
  have g: "get_parents 2 s ''https://soli.openlegalstandard.org/B'' 1 = Inr [ent_B, ent_A]"
    using doc_family_get_parents p by (simp add: SOLI_new_def)
  have "\<exists>r. get_parents 2 s ''https://soli.openlegalstandard.org/B'' 1 = Inr r \<and>
           (\<forall>e \<in> set r. \<exists>k\<le>nat 1. hop_chain s ''https://soli.openlegalstandard.org/B'' k e)"
    using get_parents_within_depth[OF fresh_SOLI_init p, of 1 2
        "''https://soli.openlegalstandard.org/B''"]
    by auto
  then have "\<exists>k\<le>1. hop_chain s ''https://soli.openlegalstandard.org/B'' k ent_A"
    using g by auto
  then show ?thesis using p g by (simp add: SOLI_new_def)
qed

lemma doc_cycle_state:
  "(case SOLI_new True doc_cycle of
      Inr s \<Rightarrow> (classes s, iri_to_index s (normalize_iri ''https://soli.openlegalstandard.org/C''))
    | Inl e \<Rightarrow> ([], None)) = ([ent_C], Some 0)"
  by (simp add: eval_defs doc_cycle_def ent_C_def)

lemma get_parents_cycle:
  assumes "classes s = [ent_C]"
    and "iri_to_index s (normalize_iri ''https://soli.openlegalstandard.org/C'') = Some 0"
  shows "d < 0 \<Longrightarrow> get_parents fuel s ''https://soli.openlegalstandard.org/C'' d = Inl RecursionError"
proof (induction fuel arbitrary: d)
  case 0
  show ?case by simp
next
  case (Suc fuel)
  have "get_parents fuel s ''https://soli.openlegalstandard.org/C'' (d - 1) = Inl RecursionError"
    using Suc.IH[of "d - 1"] Suc.prems by simp
  then show ?case using assms Suc.prems
    by (simp add: py_index_def ent_C_def OWLClass_new_def)
qed

lemma doc_family_get_parents_negative:
  "(case SOLI_new True doc_family of
      Inr s \<Rightarrow> get_parents 3 s ''https://soli.openlegalstandard.org/B'' (- 1) | Inl e \<Rightarrow> Inl e) =
   Inr [ent_B, ent_A]"
  by (simp add: eval_defs doc_family_def ent_A_def ent_B_def eval_nat_numeral)

text \<open>
  C4 as stated fails for a negative \<^verbatim>\<open>max_depth\<close>, which never reaches \<open>0\<close>. In the
  snapshot of \<^const>\<open>doc_family\<close>, \<^verbatim>\<open>get_parents\<close> with \<^verbatim>\<open>max_depth = -1\<close> returns the
  start entity and its parent, one step away. In the snapshot of \<^const>\<open>doc_cycle\<close>,
  whose class is its own parent, the call returns no list however deep it may nest.
\<close>

theorem get_parents_negative_depth_counterexample:
  "(case SOLI_new True doc_family of
      Inr s \<Rightarrow> get_parents 3 s ''https://soli.openlegalstandard.org/B'' (- 1) | Inl e \<Rightarrow> Inl e) =
     Inr [ent_B, ent_A] \<and>
   (case SOLI_new True doc_cycle of
      Inr s \<Rightarrow> \<forall>fuel. get_parents fuel s ''https://soli.openlegalstandard.org/C'' (- 1) =
                        Inl RecursionError
    | Inl e \<Rightarrow> False)"
proof -
  obtain s where p: "parse_owl True SOLI_init doc_cycle = Inr s"
    using parse_owl_snapshot[OF fresh_SOLI_init] by blast
  have c: "classes s = [ent_C]"
    "iri_to_index s (normalize_iri ''https://soli.openlegalstandard.org/C'') = Some 0"
    using doc_cycle_state p by (simp_all add: SOLI_new_def)
  have "\<forall>fuel. get_parents fuel s ''https://soli.openlegalstandard.org/C'' (- 1) =
                 Inl RecursionError"
    using get_parents_cycle[OF c, of "- 1"] by simp
  then show ?thesis using p doc_family_get_parents_negative by (simp add: SOLI_new_def)
qed

subsection \<open>Search by label\<close>

text \<open>
  C5 fails on the code. In the snapshot of \<^const>\<open>doc_labels\<close>, whatever the scorers
  are, a search for \<^verbatim>\<open>Alpha\<close> with \<^verbatim>\<open>limit = 2\<close> returns three pairs: the first
  matched string fills the result up to the limit, the \<^verbatim>\<open>break\<close> leaves the inner loop
  only, and the second matched string adds one more entity before the limit is
  tested again.
\<close>

theorem search_by_label_exceeds_limit:
  "(case SOLI_new True doc_labels of
      Inr s \<Rightarrow> map_sum id length (search_by_label (Some rf) s ''Alpha'' True 2)
    | Inl e \<Rightarrow> Inl e) = Inr 3"
  by (simp add: eval_defs doc_labels_def search_by_label_def basic_search_def
      process_extract_def get_by_label_def enumerate_eq_zip less_eq_prod_def
      eval_nat_numeral)

subsection \<open>Refresh\<close>

text \<open>
  C3 fails on the code. \<^verbatim>\<open>refresh\<close> does not clear \<^verbatim>\<open>_prefix_cache\<close>: after a refresh
  to a document without classes the snapshot has no entity, and the second search for
  the prefix \<^verbatim>\<open>Mich\<close> still returns the entity of the previous snapshot, with or
  without the trie.
\<close>

theorem refresh_keeps_prefix_cache:
  "refresh_scenario True = Some ([], [Some ent_M]) \<and>
   refresh_scenario False = Some ([], [Some ent_M])"
  by (simp add: refresh_scenario_def refresh_def search_by_prefix_def eval_defs doc_mich_def
      ent_M_def)

subsection \<open>Search by prefix\<close>

lemma sorted_concat_replicate:
  assumes "sorted (map h ks)"
  shows "sorted (map h (concat (map (\<lambda>k. replicate (n k) k) ks)))"
  using assms
proof (induction ks)
  case Nil
  show ?case by simp
next
  case (Cons k ks)
  have "h k \<le> h y" if "y \<in> set (concat (map (\<lambda>k. replicate (n k) k) ks))" for y
  proof -
    have "y \<in> set ks" using that by auto
    then show ?thesis using Cons.prems by auto
  qed
  then show ?case using Cons by (auto simp add: sorted_append)
qed

lemma list_all2_replicate_map:
  assumes "\<And>x. x \<in> set xs \<Longrightarrow> R k (g x)"
  shows "list_all2 R (replicate (length xs) k) (map g xs)"
  using assms by (induction xs) simp_all

lemma list_all2_concat_replicate:
  assumes "\<And>k x. k \<in> set ks \<Longrightarrow> x \<in> set (f k) \<Longrightarrow> R k (g x)"
  shows "list_all2 R (concat (map (\<lambda>k. replicate (length (f k)) k) ks))
           (map g (concat (map f ks)))"
  using assms
proof (induction ks)
  case Nil
  show ?case by simp
next
  case (Cons k ks)
  have 1: "list_all2 R (replicate (length (f k)) k) (map g (f k))"
    by (rule list_all2_replicate_map) (simp add: Cons.prems)
  have 2: "list_all2 R (concat (map (\<lambda>k. replicate (length (f k)) k) ks))
           (map g (concat (map f ks)))"
    by (rule Cons.IH) (simp add: Cons.prems)
  show ?case using list_all2_appendI[OF 1 2] by simp
qed

lemma dict_get_mem:
  assumes "x \<in> set (dict_get d k)"
  shows "\<exists>v. (k, v) \<in> set d \<and> x \<in> set v"
proof (cases "map_of d k")
  case None
  then show ?thesis using assms by (simp add: dict_get_def)
next
  case (Some v)
  then have "(k, v) \<in> set d" by (rule map_of_SomeD)
  then show ?thesis using assms Some by (auto simp add: dict_get_def)
qed

lemma label_inv_getitem:
  assumes inv: "label_inv s"
    and x: "x \<in> set (dict_get (label_to_index s) k @ dict_get (alt_label_to_index s) k)"
  shows "\<exists>e. getitem_int s (int x) = Some e \<and>
             (label e = Some k \<or> Some k \<in> set (alternative_labels e))"
proof -
  have "x < length (classes s) \<and>
        (label (classes s ! x) = Some k \<or> Some k \<in> set (alternative_labels (classes s ! x)))"
  proof (cases "x \<in> set (dict_get (label_to_index s) k)")
    case True
    then obtain v where "(k, v) \<in> set (label_to_index s)" "x \<in> set v"
      using dict_get_mem by blast
    from label_invD(1)[OF inv this] show ?thesis by simp
  next
    case False
    then have "x \<in> set (dict_get (alt_label_to_index s) k)" using x by simp
    then obtain v where "(k, v) \<in> set (alt_label_to_index s)" "x \<in> set v"
      using dict_get_mem by blast
    from label_invD(2)[OF inv this] show ?thesis by simp
  qed
  then show ?thesis by (simp add: getitem_int_def py_index_def)
qed

lemma prefix_result_ok_keys:
  assumes inv: "label_inv s" and pre: "\<And>k. k \<in> set ks \<Longrightarrow> prefix p k"
    and srt: "sorted (map length ks)"
  shows "prefix_result_ok p
           (map (\<lambda>index. getitem_int s (int index))
              (concat (map (\<lambda>key. dict_get (label_to_index s) key @
                                  dict_get (alt_label_to_index s) key) ks)))"
proof -
  let ?f = "\<lambda>key. dict_get (label_to_index s) key @ dict_get (alt_label_to_index s) key"
  let ?g = "\<lambda>index. getitem_int s (int index)"
  let ?R = "\<lambda>m x. prefix p m \<and>
              (\<exists>e. x = Some e \<and> (label e = Some m \<or> Some m \<in> set (alternative_labels e)))"
  let ?ms = "concat (map (\<lambda>k. replicate (length (?f k)) k) ks)"
  let ?r = "map ?g (concat (map ?f ks))"
  have a: "list_all2 ?R ?ms ?r"
  proof (rule list_all2_concat_replicate)
    fix k x assume "k \<in> set ks" "x \<in> set (?f k)"
    then show "?R k (?g x)" using pre label_inv_getitem[OF inv] by blast
  qed
  have l: "length ?ms = length ?r" using a by (rule list_all2_lengthD)
  have s: "sorted (map length ?ms)" by (rule sorted_concat_replicate[OF srt])
  have "?R (?ms ! i) (?r ! i)" if "i < length ?r" for i
    by (rule list_all2_nthD2[OF a that])
  then have n: "\<forall>i<length ?r. ?R (?ms ! i) (?r ! i)" by blast
  show ?thesis unfolding prefix_result_ok_def
    apply (rule exI[of _ ?ms])
    using l s n by blast
qed

lemma search_by_prefix_ok:
  assumes inv: "label_inv s" and c: "cache_ok s"
    and t: "mt \<longrightarrow> label_trie s \<noteq> None"
  shows "\<exists>r s'. search_by_prefix mt s p = Inr (r, s') \<and> prefix_result_ok p r \<and>
           label_inv s' \<and> cache_ok s' \<and> (mt \<longrightarrow> label_trie s' \<noteq> None)"
proof (cases "prefix_cache s p")
  case (Some cached)
  then have "prefix_result_ok p cached" using c unfolding cache_ok_def by blast
  then show ?thesis using Some inv c t by (simp add: search_by_prefix_def)
next
  case None
  define ks where "ks = (if mt then sort_key length (Trie_keys (the (label_trie s)) p)
     else sort_key length (filter (prefix p)
            (map fst (label_to_index s) @ map fst (alt_label_to_index s))))"
  define cs where "cs = map (\<lambda>index. getitem_int s (int index))
              (concat (map (\<lambda>key. dict_get (label_to_index s) key @
                                  dict_get (alt_label_to_index s) key) ks))"
  have pre: "\<And>k. k \<in> set ks \<Longrightarrow> prefix p k"
    by (auto simp add: ks_def Trie_keys_def split: if_splits)
  have srt: "sorted (map length ks)" by (simp add: ks_def)
  have ok: "prefix_result_ok p cs"
    unfolding cs_def by (rule prefix_result_ok_keys[OF inv pre srt])
  let ?s' = "s\<lparr>prefix_cache := (prefix_cache s)(p \<mapsto> cs)\<rparr>"
  have r: "search_by_prefix mt s p = Inr (cs, ?s')"
    using None t by (auto simp add: search_by_prefix_def ks_def cs_def Let_def)
  have "label_inv ?s'" using inv by (simp add: label_inv_def)
  moreover have "cache_ok ?s'" using c ok by (simp add: cache_ok_def)
  moreover have "mt \<longrightarrow> label_trie ?s' \<noteq> None" using t by simp
  ultimately show ?thesis using r ok by blast
qed

lemma parse_owl_search_inv:
  assumes "fresh s0" and "cache_ok s0" and "parse_owl mt s0 tree = Inr s"
  shows "label_inv s \<and> cache_ok s \<and> (mt \<longrightarrow> label_trie s \<noteq> None)"
proof -
  have "label_inv s" and pc: "prefix_cache s = prefix_cache s0"
    and "mt \<longrightarrow> label_trie s \<noteq> None"
    using parse_owl_snapshot[OF assms(1), of mt tree] assms(3) by auto
  moreover have "cache_ok s" using assms(2) pc by (simp add: cache_ok_def)
  ultimately show ?thesis by blast
qed

lemma reachable_inv:
  assumes "reachable mt s"
  shows "label_inv s \<and> cache_ok s \<and> (mt \<longrightarrow> label_trie s \<noteq> None)"
  using assms
proof (induction rule: reachable.induct)
  case (init tree s)
  have "cache_ok SOLI_init" by (simp add: cache_ok_def SOLI_init_def)
  from parse_owl_search_inv[OF fresh_SOLI_init this] init show ?case
    by (simp add: SOLI_new_def)
next
  case (search s p r s')
  obtain r0 s0 where "search_by_prefix mt s p = Inr (r0, s0)" "label_inv s0" "cache_ok s0"
    "mt \<longrightarrow> label_trie s0 \<noteq> None"
    using search_by_prefix_ok[of s mt p] search.IH by blast
  then show ?case using search.hyps by simp
next
  case (refreshed s tree s')
  let ?c = "s\<lparr>title := None, soli_description := None, classes := [],
          iri_to_index := Map.empty, label_to_index := [], alt_label_to_index := [],
          class_edges := Map.empty, triples := [], cached_triples := []\<rparr>"
  have f: "fresh ?c" by (simp add: fresh_def)
  have c: "cache_ok ?c" using refreshed.IH by (simp add: cache_ok_def)
  have p: "parse_owl mt ?c tree = Inr s'" using refreshed.hyps by (simp add: refresh_def)
  show ?case by (rule parse_owl_search_inv[OF f c p])
qed

text \<open>
  C6. In every state an instance reaches, \<^verbatim>\<open>search_by_prefix(p)\<close> returns, every element
  of its result is an entity with a label or alternative label that starts with \<open>p\<close>,
  and the lengths of these matched strings do not decrease along the result.
\<close>

theorem search_by_prefix_matches:
  assumes "reachable mt s"
  shows "\<exists>r s'. search_by_prefix mt s p = Inr (r, s') \<and> prefix_result_ok p r"
  using search_by_prefix_ok[of s mt p] reachable_inv[OF assms] by blast

lemma doc_family_prefix_Alp:
  "(case SOLI_new True doc_family of
      Inr s \<Rightarrow> map_sum id fst (search_by_prefix True s ''Alp'') | Inl e \<Rightarrow> Inl e) =
   Inr [Some ent_A]"
  by (simp add: eval_defs doc_family_def ent_A_def search_by_prefix_def)

theorem search_by_prefix_matches_witness:
  "(case SOLI_new True doc_family of
      Inr s \<Rightarrow> map_sum id fst (search_by_prefix True s ''Alp'') = Inr [Some ent_A] \<and>
               prefix_result_ok ''Alp'' [Some ent_A]
    | Inl e \<Rightarrow> False)"
proof -
  obtain s where p: "SOLI_new True doc_family = Inr s"
    using parse_owl_snapshot[OF fresh_SOLI_init, of True doc_family]
    by (auto simp add: SOLI_new_def)
  have "reachable True s" by (rule reachable.init[OF p])
  from search_by_prefix_matches[OF this, of "''Alp''"]
  obtain r s' where r: "search_by_prefix True s ''Alp'' = Inr (r, s')"
    "prefix_result_ok ''Alp'' r" by blast
  have "r = [Some ent_A]" using doc_family_prefix_Alp p r(1) by simp
  then show ?thesis using p r by simp
qed

subsection \<open>Search by label: distinct entities\<close>

text \<open>
  The entities of a result of \<^verbatim>\<open>search_by_label\<close> have pairwise distinct IRIs: an
  entity is appended only when its IRI is not yet in \<^verbatim>\<open>seen_classes\<close>.
\<close>

lemma collect_classes_distinct:
  assumes "collect_classes limit score (res, seen) cs = Inr (res', seen')"
    and "seen = set (map (\<lambda>x. iri (fst x)) res)" and "distinct (map (\<lambda>x. iri (fst x)) res)"
  shows "seen' = set (map (\<lambda>x. iri (fst x)) res') \<and> distinct (map (\<lambda>x. iri (fst x)) res')"
  using assms
proof (induction cs arbitrary: res seen)
  case Nil
  then show ?case by auto
next
  case (Cons c cs)
  show ?case
  proof (cases c)
    case None
    then show ?thesis using Cons.prems by simp
  next
    case (Some lc)
    show ?thesis
    proof (cases "iri lc \<in> seen")
      case True
      then have e: "collect_classes limit score (res, seen) (c # cs) =
          (if int (length res) \<ge> limit then Inr (res, seen)
           else collect_classes limit score (res, seen) cs)"
        using Some by simp
      show ?thesis
      proof (cases "int (length res) \<ge> limit")
        case True
        then have "res' = res" "seen' = seen" using e Cons.prems(1) by simp_all
        then show ?thesis using Cons.prems(2,3) by simp
      next
        case False
        then have "collect_classes limit score (res, seen) cs = Inr (res', seen')"
          using e Cons.prems(1) by simp
        from Cons.IH[OF this Cons.prems(2,3)] show ?thesis .
      qed
    next
      case False
      let ?res = "res @ [(lc, score)]" and ?seen = "insert (iri lc) seen"
      have e: "collect_classes limit score (res, seen) (c # cs) =
          (if int (length ?res) \<ge> limit then Inr (?res, ?seen)
           else collect_classes limit score (?res, ?seen) cs)"
        using Some False by simp
      have i1: "?seen = set (map (\<lambda>x. iri (fst x)) ?res)" using Cons.prems(2) by simp
      have i2: "distinct (map (\<lambda>x. iri (fst x)) ?res)"
        using Cons.prems(2,3) False by simp
      show ?thesis
      proof (cases "int (length ?res) \<ge> limit")
        case True
        then have "res' = ?res" "seen' = ?seen" using e Cons.prems(1) by simp_all
        then show ?thesis using i1 i2 by simp
      next
        case False
        then have "collect_classes limit score (?res, ?seen) cs = Inr (res', seen')"
          using e Cons.prems(1) by simp
        from Cons.IH[OF this i1 i2] show ?thesis .
      qed
    qed
  qed
qed

lemma search_loop_distinct:
  assumes "search_loop s inc limit (res, seen) ms = Inr (res', seen')"
    and "seen = set (map (\<lambda>x. iri (fst x)) res)" and "distinct (map (\<lambda>x. iri (fst x)) res)"
  shows "distinct (map (\<lambda>x. iri (fst x)) res')"
  using assms
proof (induction ms arbitrary: res seen)
  case Nil
  then show ?case by simp
next
  case (Cons m ms)
  obtain res1 seen1 where 1:
    "collect_classes limit (fst (snd m)) (res, seen) (get_by_label s (fst m) inc) = Inr (res1, seen1)"
    "search_loop s inc limit (res1, seen1) ms = Inr (res', seen')"
    using Cons.prems(1) by (auto split: sum.splits)
  from collect_classes_distinct[OF 1(1) Cons.prems(2,3)]
  have a: "seen1 = set (map (\<lambda>x. iri (fst x)) res1)" "distinct (map (\<lambda>x. iri (fst x)) res1)"
    by blast+
  show ?case by (rule Cons.IH[OF 1(2) a])
qed

lemma search_by_label_distinct:
  assumes "search_by_label rapidfuzz s l include_alt_labels limit = Inr r"
  shows "distinct (map (\<lambda>x. iri (fst x)) r)"
proof -
  obtain rf where "rapidfuzz = Some rf" using assms by (cases rapidfuzz) (simp_all add: search_by_label_def)
  then obtain ms seen' where "search_loop s include_alt_labels limit ([], {}) ms = Inr (r, seen')"
    using assms by (auto simp add: search_by_label_def Let_def split: sum.splits)
  from search_loop_distinct[OF this] show ?thesis by simp
qed

subsection \<open>What a refresh rebuilds\<close>

lemma index_alt_label_same:
  "same_onto a b \<Longrightarrow> same_onto (index_alt_label i a x) (index_alt_label i b x)"
  by (simp add: same_onto_def index_alt_label_def split: option.splits)

lemma foldl_index_alt_label_same:
  "same_onto a b \<Longrightarrow>
   same_onto (foldl (index_alt_label i) a xs) (foldl (index_alt_label i) b xs)"
  by (induction xs arbitrary: a b) (simp_all add: index_alt_label_same)

lemma index_class_same:
  assumes "same_onto a b"
  shows "same_onto (index_class a oc) (index_class b oc)"
proof -
  have e: "classes a = classes b" using assms by (simp add: same_onto_def)
  define i where "i = length (classes b)"
  define a4 where "a4 = (let s3 = a\<lparr>classes := classes a @ [oc],
                                   iri_to_index := (iri_to_index a)(iri oc \<mapsto> i)\<rparr>
      in case label oc of
           Some l \<Rightarrow> if l \<noteq> [] then s3\<lparr>label_to_index := dict_append (label_to_index s3) l i\<rparr>
                     else s3
         | None \<Rightarrow> s3)"
  define b4 where "b4 = (let s3 = b\<lparr>classes := classes b @ [oc],
                                   iri_to_index := (iri_to_index b)(iri oc \<mapsto> i)\<rparr>
      in case label oc of
           Some l \<Rightarrow> if l \<noteq> [] then s3\<lparr>label_to_index := dict_append (label_to_index s3) l i\<rparr>
                     else s3
         | None \<Rightarrow> s3)"
  have 1: "index_class a oc = foldl (index_alt_label i) a4 (alternative_labels oc)"
    by (simp add: index_class_def Let_def a4_def i_def e split: option.splits)
  have 2: "index_class b oc = foldl (index_alt_label i) b4 (alternative_labels oc)"
    by (simp add: index_class_def Let_def b4_def i_def split: option.splits)
  have "same_onto a4 b4"
    using assms by (simp add: same_onto_def a4_def b4_def Let_def split: option.splits)
  then show ?thesis unfolding 1 2 by (rule foldl_index_alt_label_same)
qed

lemma parse_owl_class_same:
  assumes "same_onto a b"
  shows "same_onto (parse_owl_class a n) (parse_owl_class b n)"
proof (cases "attrib_get n (get_ns_tag ''rdf'' ''about'')")
  case None
  then show ?thesis using assms by (simp add: parse_owl_class_def)
next
  case (Some i)
  have t: "triples a = triples b" using assms by (simp add: same_onto_def)
  let ?st = "foldl parse_child (OWLClass_new i, triples b) (getchildren n)"
  have s1: "same_onto (a\<lparr>triples := snd ?st\<rparr>) (b\<lparr>triples := snd ?st\<rparr>)"
    using assms by (simp add: same_onto_def)
  show ?thesis
    using Some t s1 index_class_same[OF s1, of "fst ?st"]
    by (simp add: parse_owl_class_def Let_def)
qed

lemma foldl_parse_ontology_child_same:
  "same_onto a b \<Longrightarrow>
   same_onto (foldl parse_ontology_child a cs) (foldl parse_ontology_child b cs)"
proof (induction cs arbitrary: a b)
  case Nil
  then show ?case by simp
next
  case (Cons c cs)
  have "same_onto (parse_ontology_child a c) (parse_ontology_child b c)"
    using Cons.prems by (simp add: same_onto_def parse_ontology_child_def)
  from Cons.IH[OF this] show ?case by simp
qed

lemma parse_node_same:
  assumes "same_onto a b"
  shows "same_onto (parse_node a n) (parse_node b n)"
  using assms parse_owl_class_same[OF assms, of n]
    foldl_parse_ontology_child_same[OF assms, of "getchildren n"]
  by (simp add: parse_node_def parse_owl_ontology_def)

lemma foldl_parse_node_same:
  "same_onto a b \<Longrightarrow> same_onto (foldl parse_node a ns) (foldl parse_node b ns)"
  by (induction ns arbitrary: a b) (simp_all add: parse_node_same)

lemma add_edge_same:
  assumes "same_onto a b"
  shows "rel_sum (=) same_onto (add_edge c a p) (add_edge c b p)"
proof -
  have e: "classes a = classes b" "iri_to_index a = iri_to_index b"
    "class_edges a = class_edges b"
    using assms by (simp_all add: same_onto_def)
  show ?thesis
    using assms
    by (simp add: add_edge_def Let_def contains_def getitem_str_def e same_onto_def
        split: option.splits sum.splits)
qed

lemma rel_sum_bind:
  assumes "rel_sum (=) R x y" and "\<And>a b. R a b \<Longrightarrow> rel_sum (=) Q (f a) (g b)"
  shows "rel_sum (=) Q (case x of Inl e \<Rightarrow> Inl e | Inr a \<Rightarrow> f a)
                       (case y of Inl e \<Rightarrow> Inl e | Inr b \<Rightarrow> g b)"
  using assms by (cases x; cases y) auto

lemma add_edges_same:
  "same_onto a b \<Longrightarrow> rel_sum (=) same_onto (add_edges c a ps) (add_edges c b ps)"
proof (induction ps arbitrary: a b)
  case Nil
  then show ?case by simp
next
  case (Cons p ps)
  show ?case unfolding add_edges.simps
    by (rule rel_sum_bind[OF add_edge_same[OF Cons.prems]]) (rule Cons.IH)
qed

lemma build_class_edges_same:
  "same_onto a b \<Longrightarrow>
   rel_sum (=) same_onto (build_class_edges a ixs) (build_class_edges b ixs)"
proof (induction ixs arbitrary: a b)
  case Nil
  then show ?case by simp
next
  case (Cons i ixs)
  have e: "classes a = classes b" using Cons.prems by (simp add: same_onto_def)
  show ?case
  proof (cases "py_index (classes b) (int i)")
    case (Inl err)
    then show ?thesis by (simp add: e)
  next
    case (Inr oc)
    have "rel_sum (=) same_onto
       (case add_edges (iri oc) a (sub_class_of oc) of
          Inl e \<Rightarrow> Inl e | Inr s' \<Rightarrow> build_class_edges s' ixs)
       (case add_edges (iri oc) b (sub_class_of oc) of
          Inl e \<Rightarrow> Inl e | Inr s' \<Rightarrow> build_class_edges s' ixs)"
      by (rule rel_sum_bind[OF add_edges_same[OF Cons.prems]]) (rule Cons.IH)
    then show ?thesis using Inr by (simp add: e)
  qed
qed

lemma parse_owl_same:
  assumes "same_onto a b"
  shows "rel_sum (=) (\<lambda>a' b'. same_onto a' b' \<and> cached_triples a' = cached_triples b')
           (parse_owl mt a tree) (parse_owl mt b tree)"
proof -
  let ?a1 = "foldl parse_node a (getchildren tree)"
  let ?b1 = "foldl parse_node b (getchildren tree)"
  have 1: "same_onto ?a1 ?b1" by (rule foldl_parse_node_same[OF assms])
  then have l: "length (classes ?a1) = length (classes ?b1)" by (simp add: same_onto_def)
  show ?thesis unfolding parse_owl_def Let_def l
    by (rule rel_sum_bind[OF build_class_edges_same[OF 1]]) (simp add: same_onto_def)
qed

text \<open>
  After a refresh, the entity sequence, the three indices, the class edges and both
  triple sequences are those of a new instance built from the same document.
\<close>

lemma refresh_rebuilds:
  assumes "refresh mt s tree = Inr s'"
  shows "\<exists>n. SOLI_new mt tree = Inr n \<and> same_onto s' n \<and> cached_triples s' = cached_triples n"
proof -
  let ?c = "s\<lparr>title := None, soli_description := None, classes := [],
          iri_to_index := Map.empty, label_to_index := [], alt_label_to_index := [],
          class_edges := Map.empty, triples := [], cached_triples := []\<rparr>"
  have "same_onto ?c SOLI_init" by (simp add: same_onto_def SOLI_init_def)
  from parse_owl_same[OF this, of mt tree] assms show ?thesis
    by (cases "parse_owl mt SOLI_init tree") (auto simp add: refresh_def SOLI_new_def)
qed

end
